theory Spec2Isabelle
  imports Main "HOL-Library.Word" "HOL-Library.Signed_Division"
begin

section \<open>The concentrator of the trace agent (agent/concentrator.go)\<close>

text \<open>
  The concentrator owns a ring of two statistics buckets. One goroutine (the ingestor,
  the anonymous function of \<open>Start\<close>) adds every incoming span to the current bucket
  and forwards the span; a second goroutine (\<open>bucketCloser\<close>) rotates the ring on every
  timer tick (\<open>flush\<close>) and shuts the span output down on the exit signal.

  The embedding keeps the state of the program in a record \<open>world\<close>: the
  \<open>Concentrator\<close> struct, the heap cells of the buckets it allocated, the list of the
  observable effects performed so far (channel operations, wait-group calls, log lines,
  goroutine launches), and the control state of the two goroutines. Every function of the
  source becomes a function on worlds. A run of the program is a list of events; each
  event lets one goroutine perform one iteration of its loop.
\<close>

subsection \<open>Go values\<close>

type_synonym int32 = "32 word"

text \<open>
  A \<open>float64\<close> is only stored and copied by this file (\<open>eps\<close>), never computed with:
  it is kept as its 64-bit pattern.
\<close>

type_synonym float64 = "64 word"

text \<open>Go's \<open>%\<close> on \<open>int32\<close> truncates towards zero; \<open>+\<close> on words wraps.\<close>

definition int32_rem :: "int32 \<Rightarrow> int32 \<Rightarrow> int32" where
  "int32_rem a b = word_of_int (sint a smod sint b)"

text \<open>
  A channel value is either nil (\<open>None\<close>) or a reference to a channel. The type
  parameter is the element type, as in Go's \<open>chan T\<close>.
\<close>

datatype 'a chan = Chan nat

text \<open>A \<open>*sync.WaitGroup\<close>: nil or a reference.\<close>

datatype waitgroup = WaitGroup nat

type_synonym addr = nat

subsection \<open>The model package (external)\<close>

text \<open>
  Modelled from the spec: \<open>model.Span\<close> is declared outside this file. The spec treats
  the span data model as an external collaborator; the concentrator only passes spans
  on. A span is represented by an identifying number.
\<close>

datatype Span = Span nat

text \<open>
  Modelled from the spec: \<open>model.StatsBucket\<close>, \<open>model.NewStatsBucket\<close>, the methods
  \<open>HandleSpan\<close> and \<open>Encode\<close> and \<open>model.Now\<close> are declared outside this file.
  The spec describes the bucket as an opaque accumulator with a window descriptor
  \<open>Start\<close> (window begin timestamp) and \<open>Duration\<close> (window length, set at close
  time), an operation absorbing one span's contribution and a terminal \<open>Encode\<close> step.
  The record keeps the two attributes, the \<open>eps\<close> the bucket was built with, the
  spans absorbed so far in order, and whether \<open>Encode\<close> has run. Timestamps are
  unbounded integers. The clock is an input: every function that reads \<open>model.Now\<close>
  takes the value read as an argument.
\<close>

record StatsBucket =
  sbStart :: int
  sbDuration :: int
  sbEps :: float64
  sbSpans :: "Span list"
  sbEncoded :: bool

definition NewStatsBucket :: "float64 \<Rightarrow> int \<Rightarrow> StatsBucket" where
  "NewStatsBucket e now =
     \<lparr>sbStart = now, sbDuration = 0, sbEps = e, sbSpans = [], sbEncoded = False\<rparr>"

definition HandleSpan :: "StatsBucket \<Rightarrow> Span \<Rightarrow> StatsBucket" where
  "HandleSpan b s = b\<lparr>sbSpans := sbSpans b @ [s]\<rparr>"

definition Encode :: "StatsBucket \<Rightarrow> StatsBucket" where
  "Encode b = b\<lparr>sbEncoded := True\<rparr>"

subsection \<open>The Concentrator struct and the state of the program\<close>

record Concentrator =
  inSpans :: "Span chan option"
  outStats :: "StatsBucket chan option"
  outSpans :: "Span chan option"
  exit :: "bool chan option"
  exitGroup :: "waitgroup option"
  bucketDuration :: int
  eps :: float64
  openBucket :: "addr option list"
  currentBucket :: int32

datatype worker = Ingestor | BucketCloser

text \<open>
  The observable effects. \<open>SendStats ch a b\<close> is \<open>ch <- *p\<close> for the bucket pointer
  \<open>p\<close> at address \<open>a\<close>: the value \<open>b\<close> is the copy that goes on the channel, the
  address tells which bucket object it was copied from.
\<close>

datatype effect =
    SendSpan "Span chan" Span
  | SendStats "StatsBucket chan" addr StatsBucket
  | CloseSpans "Span chan"
  | CloseStats "StatsBucket chan"
  | WgAdd waitgroup int
  | WgDone waitgroup
  | NewTicker int
  | Go worker
  | LogInfo string

text \<open>The run-time panics of Go that the code of this file can reach.\<close>

datatype panic =
    NilBucketPointer
  | NilWaitGroupPointer
  | IndexOutOfRange
  | CloseOfNilChannel
  | CloseOfClosedChannel
  | SendOnClosedChannel

text \<open>
  The control state of a goroutine: not launched; launched and not yet in its loop;
  waiting at the head of its loop; blocked for ever on a nil channel; returned.
\<close>

datatype gstate = NotStarted | Spawned | Running | Blocked | Returned

record world =
  conc :: Concentrator
  heap :: "StatsBucket list"
  trace :: "effect list"
  ingestor :: gstate
  closer :: gstate

text \<open>
  A call returns with a new world, blocks for ever (a send on a nil channel) in the
  world reached so far, or panics.
\<close>

datatype outcome = Returns world | Blocks world | Panics panic

definition and_then :: "outcome \<Rightarrow> (world \<Rightarrow> outcome) \<Rightarrow> outcome" where
  "and_then r f = (case r of Returns w \<Rightarrow> f w | Blocks w \<Rightarrow> Blocks w | Panics p \<Rightarrow> Panics p)"

definition emit :: "world \<Rightarrow> effect \<Rightarrow> world" where
  "emit w e = w\<lparr>trace := trace w @ [e]\<rparr>"

text \<open>\<open>a[i]\<close> on the array \<open>openBucket\<close>, with Go's bounds check.\<close>

definition index_ok :: "addr option list \<Rightarrow> int32 \<Rightarrow> bool" where
  "index_ok ob i = (0 \<le> sint i \<and> sint i < int (length ob))"

definition slot :: "addr option list \<Rightarrow> int32 \<Rightarrow> addr option" where
  "slot ob i = ob ! nat (sint i)"

text \<open>
  Dereferencing a bucket pointer: nil panics. An address outside the heap is never
  stored by the program; the model panics there too.
\<close>

definition deref :: "world \<Rightarrow> addr option \<Rightarrow> (addr \<times> StatsBucket) option" where
  "deref w p = (case p of None \<Rightarrow> None
     | Some a \<Rightarrow> if a < length (heap w) then Some (a, heap w ! a) else None)"

definition alloc :: "world \<Rightarrow> StatsBucket \<Rightarrow> addr \<times> world" where
  "alloc w b = (length (heap w), w\<lparr>heap := heap w @ [b]\<rparr>)"

definition store :: "world \<Rightarrow> addr \<Rightarrow> StatsBucket \<Rightarrow> world" where
  "store w a b = w\<lparr>heap := (heap w)[a := b]\<rparr>"

subsection \<open>NewConcentrator, Init, Start\<close>

definition NewConcentrator ::
  "int \<Rightarrow> float64 \<Rightarrow> bool chan option \<Rightarrow> waitgroup option \<Rightarrow> Concentrator" where
  "NewConcentrator bd e ex eg =
     \<lparr>inSpans = None, outStats = None, outSpans = None,
      exit = ex, exitGroup = eg, bucketDuration = bd, eps = e,
      openBucket = [None, None], currentBucket = 0\<rparr>"

text \<open>The program before \<open>Init\<close> and \<open>Start\<close>: nothing allocated, nothing done.\<close>

definition fresh :: "Concentrator \<Rightarrow> world" where
  "fresh c = \<lparr>conc = c, heap = [], trace = [], ingestor = NotStarted, closer = NotStarted\<rparr>"

definition Init ::
  "world \<Rightarrow> Span chan option \<Rightarrow> StatsBucket chan option \<Rightarrow> Span chan option \<Rightarrow> world" where
  "Init w i os osp =
     w\<lparr>conc := (conc w)\<lparr>inSpans := i, outStats := os, outSpans := osp\<rparr>\<rparr>"

text \<open>
  \<open>Start\<close>: the first bucket goes into slot 0, the two goroutines are launched, a line
  is logged. \<open>t0\<close> is the clock value that \<open>NewStatsBucket\<close> reads.
\<close>

definition Start :: "world \<Rightarrow> int \<Rightarrow> world" where
  "Start w t0 =
     (let (a, w1) = alloc w (NewStatsBucket (eps (conc w)) t0);
          w2 = w1\<lparr>conc := (conc w1)\<lparr>openBucket := (openBucket (conc w1))[0 := Some a]\<rparr>\<rparr>;
          w3 = (emit w2 (Go Ingestor))\<lparr>ingestor := Running\<rparr>;
          w4 = (emit w3 (Go BucketCloser))\<lparr>closer := Spawned\<rparr>
      in emit w4 (LogInfo ''Concentrator started''))"

subsection \<open>HandleNewSpan and flush\<close>

definition HandleNewSpan :: "world \<Rightarrow> Span \<Rightarrow> outcome" where
  "HandleNewSpan w s =
     (let c = conc w in
      if \<not> index_ok (openBucket c) (currentBucket c) then Panics IndexOutOfRange
      else case deref w (slot (openBucket c) (currentBucket c)) of
             None \<Rightarrow> Panics NilBucketPointer
           | Some (a, b) \<Rightarrow> Returns (store w a (HandleSpan b s)))"

text \<open>
  \<open>flush\<close>, statement by statement. \<open>flush_alloc\<close> is
  \<open>c.openBucket[nextBucket] = model.NewStatsBucket(c.eps)\<close>.
\<close>

definition flush_alloc :: "world \<Rightarrow> int32 \<Rightarrow> int \<Rightarrow> outcome" where
  "flush_alloc w nextBucket t_new =
     (let (a, w1) = alloc w (NewStatsBucket (eps (conc w)) t_new) in
      if \<not> index_ok (openBucket (conc w1)) nextBucket then Panics IndexOutOfRange
      else Returns (w1\<lparr>conc := (conc w1)
             \<lparr>openBucket := (openBucket (conc w1))[nat (sint nextBucket) := Some a]\<rparr>\<rparr>))"

text \<open>
  \<open>c.openBucket[c.currentBucket].Duration = model.Now() - c.openBucket[c.currentBucket].Start\<close>
\<close>

definition flush_stamp :: "world \<Rightarrow> int \<Rightarrow> outcome" where
  "flush_stamp w now =
     (let c = conc w in
      if \<not> index_ok (openBucket c) (currentBucket c) then Panics IndexOutOfRange
      else case deref w (slot (openBucket c) (currentBucket c)) of
             None \<Rightarrow> Panics NilBucketPointer
           | Some (a, b) \<Rightarrow> Returns (store w a (b\<lparr>sbDuration := now - sbStart b\<rparr>)))"

text \<open>\<open>c.currentBucket = nextBucket\<close>\<close>

definition flush_flip :: "world \<Rightarrow> int32 \<Rightarrow> world" where
  "flush_flip w nextBucket = w\<lparr>conc := (conc w)\<lparr>currentBucket := nextBucket\<rparr>\<rparr>"

text \<open>\<open>c.outStats <- *c.openBucket[bucketToSend]\<close>\<close>

definition send_stats :: "world \<Rightarrow> addr \<Rightarrow> StatsBucket \<Rightarrow> outcome" where
  "send_stats w a b =
     (case outStats (conc w) of
        None \<Rightarrow> Blocks w
      | Some ch \<Rightarrow> if CloseStats ch \<in> set (trace w) then Panics SendOnClosedChannel
                   else Returns (emit w (SendStats ch a b)))"

text \<open>The last block of \<open>flush\<close>: the other slot is encoded and sent if it is not nil.\<close>

definition flush_send :: "world \<Rightarrow> outcome" where
  "flush_send w =
     (let c = conc w; bucketToSend = int32_rem (currentBucket c + 1) 2 in
      if \<not> index_ok (openBucket c) bucketToSend then Panics IndexOutOfRange
      else case slot (openBucket c) bucketToSend of
             None \<Rightarrow> Returns w
           | Some a \<Rightarrow>
               (case deref w (Some a) of
                  None \<Rightarrow> Panics NilBucketPointer
                | Some (a, b) \<Rightarrow>
                    (let w1 = store w a (Encode b) in send_stats w1 a (Encode b))))"

text \<open>
  \<open>t_new\<close> is the clock value read inside \<open>NewStatsBucket\<close>, \<open>now\<close> the one read by
  \<open>model.Now()\<close> in the Duration statement.
\<close>

definition flush :: "world \<Rightarrow> int \<Rightarrow> int \<Rightarrow> outcome" where
  "flush w t_new now =
     (let nextBucket = int32_rem (currentBucket (conc w) + 1) 2 in
      and_then (flush_alloc w nextBucket t_new) (\<lambda>w1.
      and_then (flush_stamp w1 now) (\<lambda>w2.
      flush_send (flush_flip w2 nextBucket))))"

subsection \<open>The two goroutines\<close>

text \<open>\<open>c.outSpans <- s\<close>: a nil channel blocks for ever, a closed one panics.\<close>

definition send_span :: "world \<Rightarrow> Span \<Rightarrow> outcome" where
  "send_span w s =
     (case outSpans (conc w) of
        None \<Rightarrow> Blocks w
      | Some ch \<Rightarrow> if CloseSpans ch \<in> set (trace w) then Panics SendOnClosedChannel
                   else Returns (emit w (SendSpan ch s)))"

text \<open>
  The body of the loop \<open>for s := range c.inSpans\<close> in \<open>Start\<close>, for the span \<open>s\<close>
  just received. \<open>HandleNewSpan\<close> gets a pointer to the loop variable; the bucket's
  \<open>HandleSpan\<close> is taken to read the span only, so the span sent is the one received.
\<close>

definition ingest :: "world \<Rightarrow> Span \<Rightarrow> outcome" where
  "ingest w s = and_then (HandleNewSpan w s) (\<lambda>w1. send_span w1 s)"

text \<open>
  \<open>bucketCloser\<close> before its loop: \<open>c.exitGroup.Add(1)\<close> and the ticker.
\<close>

definition bucketCloser_enter :: "world \<Rightarrow> outcome" where
  "bucketCloser_enter w =
     (case exitGroup (conc w) of
        None \<Rightarrow> Panics NilWaitGroupPointer
      | Some g \<Rightarrow> Returns (emit (emit w (WgAdd g 1)) (NewTicker (bucketDuration (conc w)))))"

text \<open>The case \<open><-c.exit\<close> of the select.\<close>

definition bucketCloser_exit :: "world \<Rightarrow> outcome" where
  "bucketCloser_exit w =
     (let w1 = emit w (LogInfo ''Concentrator exiting'') in
      case outSpans (conc w1) of
        None \<Rightarrow> Panics CloseOfNilChannel
      | Some ch \<Rightarrow>
          if CloseSpans ch \<in> set (trace w1) then Panics CloseOfClosedChannel
          else (let w2 = emit w1 (CloseSpans ch) in
                case exitGroup (conc w2) of
                  None \<Rightarrow> Panics NilWaitGroupPointer
                | Some g \<Rightarrow> Returns (emit w2 (WgDone g))))"

text \<open>The case \<open><-ticker\<close> of the select.\<close>

definition bucketCloser_tick :: "world \<Rightarrow> int \<Rightarrow> int \<Rightarrow> outcome" where
  "bucketCloser_tick w t_new now =
     flush (emit w (LogInfo ''Concentrator flushed a time bucket'')) t_new now"

subsection \<open>Executions\<close>

text \<open>
  An event is one completed receive of a goroutine, or the first step of
  \<open>bucketCloser\<close>: \<open>CloserBegins\<close> runs the statements before its loop,
  \<open>Tick t_new now\<close> is a tick taken by the select (with the two clock values the flush
  will read), \<open>ExitSignal\<close> a value taken from \<open>c.exit\<close>, \<open>SpanArrives s\<close> a span taken
  from \<open>c.inSpans\<close>, \<open>InboundClosed\<close> the end of the range loop. An event that the
  goroutine cannot take in its control state (or on a nil channel) leaves the world as
  it is. A send on a channel that is neither nil nor closed is taken to complete. When
  and whether the ticker fires (its period is \<open>bucketDuration\<close> seconds) is left to
  the event list. Each event is one atomic step: the unsynchronised reads and writes of
  the two goroutines on \<open>currentBucket\<close> and on a bucket are not interleaved below
  the level of a loop iteration.
\<close>

datatype event = CloserBegins | Tick int int | ExitSignal | SpanArrives Span | InboundClosed

definition closer_moves :: "outcome \<Rightarrow> gstate \<Rightarrow> panic + world" where
  "closer_moves r g = (case r of
       Returns w \<Rightarrow> Inr (w\<lparr>closer := g\<rparr>)
     | Blocks w \<Rightarrow> Inr (w\<lparr>closer := Blocked\<rparr>)
     | Panics p \<Rightarrow> Inl p)"

definition ingestor_moves :: "outcome \<Rightarrow> gstate \<Rightarrow> panic + world" where
  "ingestor_moves r g = (case r of
       Returns w \<Rightarrow> Inr (w\<lparr>ingestor := g\<rparr>)
     | Blocks w \<Rightarrow> Inr (w\<lparr>ingestor := Blocked\<rparr>)
     | Panics p \<Rightarrow> Inl p)"

fun step :: "world \<Rightarrow> event \<Rightarrow> panic + world" where
  "step w CloserBegins =
     (if closer w = Spawned then closer_moves (bucketCloser_enter w) Running else Inr w)"
| "step w (Tick t_new now) =
     (if closer w = Running then closer_moves (bucketCloser_tick w t_new now) Running
      else Inr w)"
| "step w ExitSignal =
     (if closer w = Running \<and> exit (conc w) \<noteq> None
      then closer_moves (bucketCloser_exit w) Returned else Inr w)"
| "step w (SpanArrives s) =
     (if ingestor w = Running \<and> inSpans (conc w) \<noteq> None
      then ingestor_moves (ingest w s) Running else Inr w)"
| "step w InboundClosed =
     (if ingestor w = Running \<and> inSpans (conc w) \<noteq> None
      then Inr (w\<lparr>ingestor := Returned\<rparr>) else Inr w)"

fun run :: "world \<Rightarrow> event list \<Rightarrow> panic + world" where
  "run w [] = Inr w"
| "run w (e # es) = (case step w e of Inl p \<Rightarrow> Inl p | Inr w' \<Rightarrow> run w' es)"

text \<open>The program after \<open>NewConcentrator\<close>, \<open>Init\<close> and \<open>Start\<close>.\<close>

definition boot ::
  "int \<Rightarrow> float64 \<Rightarrow> bool chan option \<Rightarrow> waitgroup option \<Rightarrow>
   Span chan option \<Rightarrow> StatsBucket chan option \<Rightarrow> Span chan option \<Rightarrow> int \<Rightarrow> world" where
  "boot bd e ex eg i os osp t0 = Start (Init (fresh (NewConcentrator bd e ex eg)) i os osp) t0"

subsection \<open>Reading a trace\<close>

fun stats_of :: "effect \<Rightarrow> (addr \<times> StatsBucket) list" where
  "stats_of (SendStats ch a b) = [(a, b)]"
| "stats_of _ = []"

definition stats_sent :: "effect list \<Rightarrow> (addr \<times> StatsBucket) list" where
  "stats_sent tr = concat (map stats_of tr)"

fun spans_of :: "effect \<Rightarrow> Span list" where
  "spans_of (SendSpan ch s) = [s]"
| "spans_of _ = []"

definition spans_sent :: "effect list \<Rightarrow> Span list" where
  "spans_sent tr = concat (map spans_of tr)"

subsection \<open>Predicates and worlds used in the statements\<close>

text \<open>The pointer in the slot that \<open>currentBucket\<close> selects: the bucket written to.\<close>

definition cur_addr :: "world \<Rightarrow> addr option" where
  "cur_addr w = slot (openBucket (conc w)) (currentBucket (conc w))"

text \<open>
  The ring is in order: two slots, \<open>currentBucket\<close> is 0 or 1, and the slot it selects
  holds a pointer to an allocated bucket (it is not nil).
\<close>

definition cur_ok :: "world \<Rightarrow> bool" where
  "cur_ok w = (length (openBucket (conc w)) = 2
     \<and> (currentBucket (conc w) = 0 \<or> currentBucket (conc w) = 1)
     \<and> cur_addr w \<noteq> None \<and> the (cur_addr w) < length (heap w))"

text \<open>
  The worlds a flush passes through, written out: after the allocation into the other
  slot, after the Duration of the current bucket is set, after the index is flipped, and
  after \<open>Encode\<close> on the bucket that is sent. \<open>stamped\<close> is the current bucket with its
  Duration set.
\<close>

definition after_alloc :: "world \<Rightarrow> int \<Rightarrow> world" where
  "after_alloc w t_new =
     w\<lparr>conc := (conc w)\<lparr>openBucket :=
          (openBucket (conc w))[nat (sint (1 - currentBucket (conc w))) := Some (length (heap w))]\<rparr>,
       heap := heap w @ [NewStatsBucket (eps (conc w)) t_new]\<rparr>"

definition stamped :: "world \<Rightarrow> int \<Rightarrow> StatsBucket" where
  "stamped w now = (let b = heap w ! the (cur_addr w) in b\<lparr>sbDuration := now - sbStart b\<rparr>)"

definition after_stamp :: "world \<Rightarrow> int \<Rightarrow> int \<Rightarrow> world" where
  "after_stamp w t_new now =
     (after_alloc w t_new)\<lparr>heap := (heap (after_alloc w t_new))[the (cur_addr w) := stamped w now]\<rparr>"

definition after_flip :: "world \<Rightarrow> int \<Rightarrow> int \<Rightarrow> world" where
  "after_flip w t_new now =
     (after_stamp w t_new now)\<lparr>conc := (conc (after_stamp w t_new now))
        \<lparr>currentBucket := 1 - currentBucket (conc w)\<rparr>\<rparr>"

definition after_encode :: "world \<Rightarrow> int \<Rightarrow> int \<Rightarrow> world" where
  "after_encode w t_new now =
     (after_flip w t_new now)\<lparr>heap := (heap (after_flip w t_new now))
        [the (cur_addr w) := Encode (stamped w now)]\<rparr>"

text \<open>The addresses of the buckets sent so far, in the order of sending.\<close>

definition sent_addrs :: "world \<Rightarrow> addr list" where
  "sent_addrs w = map fst (stats_sent (trace w))"

text \<open>What a step added to the trace.\<close>

definition added :: "world \<Rightarrow> world \<Rightarrow> effect list" where
  "added w w' = drop (length (trace w)) (trace w')"

text \<open>The world a call returned with, if it returned.\<close>

fun returned :: "outcome \<Rightarrow> world option" where
  "returned (Returns w) = Some w"
| "returned _ = None"

text \<open>
  The invariant of the executions: the ring is in order; every bucket sent lies in the
  heap and is not the current one; no bucket was sent twice; the stats channel was never
  closed; the span channel is closed only by a closer that has returned; a closer in its
  loop has a wait group.
\<close>

definition inv :: "world \<Rightarrow> bool" where
  "inv w = (cur_ok w
     \<and> (\<forall>a \<in> set (sent_addrs w). a < length (heap w) \<and> cur_addr w \<noteq> Some a)
     \<and> distinct (sent_addrs w)
     \<and> (\<forall>ch. CloseStats ch \<notin> set (trace w))
     \<and> (\<forall>ch. CloseSpans ch \<in> set (trace w) \<longrightarrow>
           outSpans (conc w) = Some ch \<and> closer w = Returned)
     \<and> (closer w = Running \<longrightarrow> exitGroup (conc w) \<noteq> None))"

text \<open>An example program: every channel and the wait group are present, the clock reads 0 at \<open>Start\<close>.\<close>

definition demo :: world where
  "demo = boot 10 7 (Some (Chan 0)) (Some (WaitGroup 0)) (Some (Chan 1)) (Some (Chan 2))
            (Some (Chan 3)) 0"

text \<open>The fields of the struct that only \<open>NewConcentrator\<close> and \<open>Init\<close> assign.\<close>

definition same_config :: "Concentrator \<Rightarrow> Concentrator \<Rightarrow> bool" where
  "same_config c c' = (inSpans c' = inSpans c \<and> outStats c' = outStats c
     \<and> outSpans c' = outSpans c \<and> exit c' = exit c \<and> exitGroup c' = exitGroup c
     \<and> bucketDuration c' = bucketDuration c \<and> eps c' = eps c)"

text \<open>Closes of a channel and calls on the wait group, and how many closes a world has seen.\<close>

fun is_close :: "effect \<Rightarrow> bool" where
  "is_close (CloseSpans ch) = True"
| "is_close (CloseStats ch) = True"
| "is_close _ = False"

fun is_waitgroup :: "effect \<Rightarrow> bool" where
  "is_waitgroup (WgAdd g n) = True"
| "is_waitgroup (WgDone g) = True"
| "is_waitgroup _ = False"

definition closes :: "world \<Rightarrow> nat" where
  "closes w = length (filter is_close (trace w))"

definition closed_once :: "world \<Rightarrow> bool" where
  "closed_once w = (closes w = (if closer w = Returned then 1 else 0))"

text \<open>The ticks of an event list, each with its two clock values.\<close>

fun ticks_of :: "event list \<Rightarrow> (int \<times> int) list" where
  "ticks_of [] = []"
| "ticks_of (Tick t_new now # es) = (t_new, now) # ticks_of es"
| "ticks_of (_ # es) = ticks_of es"

text \<open>
  What is compared of the buckets sent: address, Start, Duration, encoded. \<open>expected\<close>
  lists these for the ticks to come, from the address and Start of the current bucket
  and the next free address.
\<close>

definition view :: "(addr \<times> StatsBucket) list \<Rightarrow> (addr \<times> int \<times> int \<times> bool) list" where
  "view xs = map (\<lambda>(a, b). (a, sbStart b, sbDuration b, sbEncoded b)) xs"

fun expected :: "addr \<Rightarrow> int \<Rightarrow> nat \<Rightarrow> (int \<times> int) list \<Rightarrow> (addr \<times> int \<times> int \<times> bool) list" where
  "expected a s n [] = []"
| "expected a s n ((t_new, now) # ts) = (a, s, now - s, True) # expected n t_new (Suc n) ts"

text \<open>
  The spans that the range loop receives: those that arrive before the inbound channel
  is closed. \<open>arrival\<close> is the same for one event.
\<close>

fun arrivals :: "event list \<Rightarrow> Span list" where
  "arrivals [] = []"
| "arrivals (SpanArrives s # es) = s # arrivals es"
| "arrivals (InboundClosed # es) = []"
| "arrivals (_ # es) = arrivals es"

fun arrival :: "event \<Rightarrow> Span list" where
  "arrival (SpanArrives s) = [s]"
| "arrival _ = []"

text \<open>
  The counter of a wait group, as the calls in the trace leave it: \<open>Add\<close> adds its
  argument, \<open>Done\<close> subtracts one. A \<open>Wait\<close> on the group returns when the counter
  is 0 (other users of a shared group are not in the trace; they can only keep a
  waiter longer). \<open>spans_closed\<close>: the outbound span channel has been closed.
  \<open>wg_inv\<close> is the invariant that ties the counter to the control state of
  \<open>bucketCloser\<close>.
\<close>

fun wg_delta :: "waitgroup \<Rightarrow> effect \<Rightarrow> int" where
  "wg_delta g (WgAdd g' n) = (if g' = g then n else 0)"
| "wg_delta g (WgDone g') = (if g' = g then - 1 else 0)"
| "wg_delta g _ = 0"

definition wg_counter :: "waitgroup \<Rightarrow> effect list \<Rightarrow> int" where
  "wg_counter g tr = sum_list (map (wg_delta g) tr)"

definition spans_closed :: "world \<Rightarrow> bool" where
  "spans_closed w = (case outSpans (conc w) of
       None \<Rightarrow> False
     | Some co \<Rightarrow> CloseSpans co \<in> set (trace w))"

definition wg_inv :: "waitgroup \<Rightarrow> world \<Rightarrow> bool" where
  "wg_inv g w = (exitGroup (conc w) = Some g \<and> closer w \<noteq> NotStarted
     \<and> wg_counter g (trace w) = (if closer w = Running \<or> closer w = Blocked then 1 else 0)
     \<and> (if closer w = Returned then spans_closed w else \<not> spans_closed w))"

section \<open>Lemmas\<close>

subsection \<open>One flush\<close>

lemma next_of_0: "int32_rem 1 2 = 1"
  by (simp add: int32_rem_def signed_modulo_int_def)

lemma next_of_1: "int32_rem 2 2 = 0"
  by (simp add: int32_rem_def signed_modulo_int_def)

lemma deref_Some: "a < length (heap w) \<Longrightarrow> deref w (Some a) = Some (a, heap w ! a)"
  by (simp add: deref_def)

lemma cur_okE:
  assumes "cur_ok w"
  obtains a where "cur_addr w = Some a" "a < length (heap w)" "length (openBucket (conc w)) = 2"
    "index_ok (openBucket (conc w)) (currentBucket (conc w))"
    "int32_rem (currentBucket (conc w) + 1) 2 = 1 - currentBucket (conc w)"
    "index_ok (openBucket (conc w)) (1 - currentBucket (conc w))"
    "nat (sint (1 - currentBucket (conc w))) \<noteq> nat (sint (currentBucket (conc w)))"
    "nat (sint (1 - currentBucket (conc w))) < 2"
    "nat (sint (currentBucket (conc w))) < 2"
    "1 - currentBucket (conc w) = 0 \<or> 1 - currentBucket (conc w) = 1"
  using assms
  by (auto simp: cur_ok_def index_ok_def next_of_0 next_of_1)

lemma flush_alloc_ok:
  assumes "cur_ok w"
  shows "flush_alloc w (1 - currentBucket (conc w)) t_new = Returns (after_alloc w t_new)"
  using assms by (elim cur_okE) (simp add: flush_alloc_def alloc_def after_alloc_def)

lemma cur_addr_after_alloc:
  assumes "cur_ok w"
  shows "cur_addr (after_alloc w t_new) = cur_addr w"
  using assms by (elim cur_okE) (simp add: after_alloc_def cur_addr_def slot_def)

lemma cur_ok_after_alloc:
  assumes "cur_ok w"
  shows "cur_ok (after_alloc w t_new)"
  using assms cur_addr_after_alloc[OF assms, of t_new]
  by (auto simp: cur_ok_def after_alloc_def)

lemma flush_stamp_ok:
  assumes "cur_ok w"
  shows "flush_stamp (after_alloc w t_new) now = Returns (after_stamp w t_new now)"
proof -
  from assms obtain a where a: "cur_addr w = Some a" "a < length (heap w)"
    by (elim cur_okE)
  have "cur_addr (after_alloc w t_new) = Some a"
    using a cur_addr_after_alloc[OF assms] by simp
  moreover have "index_ok (openBucket (conc (after_alloc w t_new)))
      (currentBucket (conc (after_alloc w t_new)))"
    using cur_ok_after_alloc[OF assms, of t_new] by (elim cur_okE)
  moreover have "a < length (heap (after_alloc w t_new))"
      "heap (after_alloc w t_new) ! a = heap w ! a"
    using a by (simp_all add: after_alloc_def nth_append)
  ultimately show ?thesis using a
    by (simp add: flush_stamp_def cur_addr_def[symmetric] deref_Some store_def
        after_stamp_def stamped_def Let_def)
qed

lemma cur_ok_after_stamp:
  assumes "cur_ok w"
  shows "cur_ok (after_stamp w t_new now)"
  using cur_ok_after_alloc[OF assms, of t_new]
  by (auto simp: cur_ok_def after_stamp_def cur_addr_def)

lemma flush_flip_ok:
  "flush_flip (after_stamp w t_new now) (1 - currentBucket (conc w)) = after_flip w t_new now"
  by (simp add: flush_flip_def after_flip_def)

lemma cur_addr_after_flip:
  assumes "cur_ok w"
  shows "cur_addr (after_flip w t_new now) = Some (length (heap w))"
  using assms
  by (elim cur_okE) (simp add: after_flip_def after_stamp_def after_alloc_def cur_addr_def slot_def)

lemma cur_ok_after_flip:
  assumes "cur_ok w"
  shows "cur_ok (after_flip w t_new now)"
  using assms cur_addr_after_flip[OF assms, of t_new now]
  by (elim cur_okE) (simp add: cur_ok_def, simp add: after_flip_def after_stamp_def after_alloc_def)

lemma flush_send_ok:
  assumes "cur_ok w"
  shows "flush_send (after_flip w t_new now) =
     send_stats (after_encode w t_new now) (the (cur_addr w)) (Encode (stamped w now))"
proof -
  from assms obtain a where a: "cur_addr w = Some a" "a < length (heap w)"
    by (elim cur_okE)
  let ?w3 = "after_flip w t_new now"
  have cb: "currentBucket (conc ?w3) = 1 - currentBucket (conc w)"
    by (simp add: after_flip_def)
  have bk: "int32_rem (currentBucket (conc ?w3) + 1) 2 = currentBucket (conc w)"
    using assms unfolding cb by (auto simp: cur_ok_def next_of_0 next_of_1)
  have io: "index_ok (openBucket (conc ?w3)) (currentBucket (conc w))"
    using assms
    by (elim cur_okE) (simp add: after_flip_def after_stamp_def after_alloc_def index_ok_def)
  have sl: "slot (openBucket (conc ?w3)) (currentBucket (conc w)) = Some a"
    using assms a
    by (elim cur_okE)
      (simp add: after_flip_def after_stamp_def after_alloc_def cur_addr_def slot_def)
  have hp: "a < length (heap ?w3)" "heap ?w3 ! a = stamped w now"
    using a by (simp_all add: after_flip_def after_stamp_def after_alloc_def)
  show ?thesis
    using a bk io sl hp
    by (simp add: flush_send_def deref_Some store_def after_encode_def)
qed

lemma flush_char:
  assumes "cur_ok w"
  shows "flush w t_new now =
     send_stats (after_encode w t_new now) (the (cur_addr w)) (Encode (stamped w now))"
proof -
  have nb: "int32_rem (currentBucket (conc w) + 1) 2 = 1 - currentBucket (conc w)"
    using assms by (elim cur_okE)
  show ?thesis
    unfolding flush_def nb
    by (simp add: flush_alloc_ok[OF assms] flush_stamp_ok[OF assms] flush_flip_ok
        flush_send_ok[OF assms] and_then_def)
qed


subsection \<open>Traces and record updates\<close>

lemma stats_sent_append: "stats_sent (xs @ ys) = stats_sent xs @ stats_sent ys"
  by (simp add: stats_sent_def)

lemma spans_sent_append: "spans_sent (xs @ ys) = spans_sent xs @ spans_sent ys"
  by (simp add: spans_sent_def)

lemma stats_sent_simps [simp]:
  "stats_sent [] = []"
  "stats_sent (e # es) = stats_of e @ stats_sent es"
  by (simp_all add: stats_sent_def)

lemma spans_sent_simps [simp]:
  "spans_sent [] = []"
  "spans_sent (e # es) = spans_of e @ spans_sent es"
  by (simp_all add: spans_sent_def)

lemma after_encode_fields:
  "trace (after_encode w t_new now) = trace w"
  "closer (after_encode w t_new now) = closer w"
  "ingestor (after_encode w t_new now) = ingestor w"
  "length (heap (after_encode w t_new now)) = Suc (length (heap w))"
  "inSpans (conc (after_encode w t_new now)) = inSpans (conc w)"
  "outStats (conc (after_encode w t_new now)) = outStats (conc w)"
  "outSpans (conc (after_encode w t_new now)) = outSpans (conc w)"
  "exit (conc (after_encode w t_new now)) = exit (conc w)"
  "exitGroup (conc (after_encode w t_new now)) = exitGroup (conc w)"
  "bucketDuration (conc (after_encode w t_new now)) = bucketDuration (conc w)"
  "eps (conc (after_encode w t_new now)) = eps (conc w)"
  by (simp_all add: after_encode_def after_flip_def after_stamp_def after_alloc_def)

lemma cur_addr_after_encode:
  assumes "cur_ok w"
  shows "cur_addr (after_encode w t_new now) = Some (length (heap w))"
  using cur_addr_after_flip[OF assms, of t_new now]
  by (simp add: after_encode_def cur_addr_def)

lemma cur_ok_after_encode:
  assumes "cur_ok w"
  shows "cur_ok (after_encode w t_new now)"
  using cur_ok_after_flip[OF assms, of t_new now]
  by (auto simp: cur_ok_def after_encode_def cur_addr_def)

lemma emit_fields [simp]:
  "trace (emit w e) = trace w @ [e]"
  "conc (emit w e) = conc w"
  "heap (emit w e) = heap w"
  "closer (emit w e) = closer w"
  "ingestor (emit w e) = ingestor w"
  by (simp_all add: emit_def)

lemma cur_upd [simp]:
  "cur_addr (w\<lparr>closer := g\<rparr>) = cur_addr w"
  "cur_addr (w\<lparr>ingestor := g\<rparr>) = cur_addr w"
  "cur_addr (w\<lparr>trace := tr\<rparr>) = cur_addr w"
  "cur_ok (w\<lparr>closer := g\<rparr>) = cur_ok w"
  "cur_ok (w\<lparr>ingestor := g\<rparr>) = cur_ok w"
  "cur_ok (w\<lparr>trace := tr\<rparr>) = cur_ok w"
  by (simp_all add: cur_ok_def cur_addr_def)

lemma cur_ok_emit [simp]: "cur_ok (emit w e) = cur_ok w"
  by (simp add: cur_ok_def emit_def cur_addr_def)

lemma cur_addr_emit [simp]: "cur_addr (emit w e) = cur_addr w"
  by (simp add: emit_def cur_addr_def)

lemma heap_after_encode_old:
  assumes "cur_ok w"
  shows "heap (after_encode w t_new now) ! the (cur_addr w) = Encode (stamped w now)"
  using assms
  by (elim cur_okE) (simp add: after_encode_def after_flip_def after_stamp_def after_alloc_def)

subsection \<open>The steps of the goroutines\<close>

text \<open>The tick step from a world in order.\<close>

lemma tick_char:
  assumes "cur_ok w"
  shows "bucketCloser_tick w t_new now =
    (case outStats (conc w) of
       None \<Rightarrow> Blocks (after_encode (emit w (LogInfo ''Concentrator flushed a time bucket'')) t_new now)
     | Some ch \<Rightarrow>
         if CloseStats ch \<in> set (trace w) then Panics SendOnClosedChannel
         else Returns (emit (after_encode (emit w (LogInfo ''Concentrator flushed a time bucket'')) t_new now)
                 (SendStats ch (the (cur_addr w))
                    (Encode (stamped (emit w (LogInfo ''Concentrator flushed a time bucket'')) now)))))"
proof -
  let ?w0 = "emit w (LogInfo ''Concentrator flushed a time bucket'')"
  have ok: "cur_ok ?w0" using assms by simp
  show ?thesis
    unfolding bucketCloser_tick_def flush_char[OF ok]
    by (simp add: send_stats_def after_encode_fields split: option.splits)
qed

lemma stamped_emit [simp]: "stamped (emit w e) now = stamped w now"
  by (simp add: stamped_def)

subsection \<open>The invariant\<close>

lemma inv_boot: "inv (boot bd e ex eg i os osp t0)"
  by (simp add: inv_def cur_ok_def cur_addr_def slot_def sent_addrs_def stats_sent_def
      boot_def Start_def Init_def fresh_def NewConcentrator_def alloc_def emit_def)

lemma inv_tick:
  assumes "inv w" "closer w = Running" "closer_moves (bucketCloser_tick w t_new now) Running = Inr w'"
  shows "inv w'"
proof -
  from assms(1) have ok: "cur_ok w" by (simp add: inv_def)
  then obtain a where a: "cur_addr w = Some a" "a < length (heap w)" by (elim cur_okE)
  let ?w0 = "emit w (LogInfo ''Concentrator flushed a time bucket'')"
  let ?w4 = "after_encode ?w0 t_new now"
  have ok4: "cur_ok ?w4" "cur_addr ?w4 = Some (length (heap w))"
    using cur_ok_after_encode[of ?w0] cur_addr_after_encode[of ?w0] ok by simp_all
  show ?thesis
  proof (cases "outStats (conc w)")
    case None
    with assms(3) have w': "w' = ?w4\<lparr>closer := Blocked\<rparr>"
      by (simp add: tick_char[OF ok] closer_moves_def)
    show ?thesis using assms(1,2) ok4 unfolding w'
      by (auto simp: inv_def sent_addrs_def after_encode_fields
          stats_sent_append)
  next
    case (Some ch)
    with assms(3) have w': "w' = (emit ?w4 (SendStats ch a (Encode (stamped w now))))\<lparr>closer := Running\<rparr>"
      and "CloseStats ch \<notin> set (trace w)"
      using a by (auto simp: tick_char[OF ok] closer_moves_def split: if_splits)
    show ?thesis using assms(1,2) ok4 a unfolding w'
      by (auto simp: inv_def sent_addrs_def after_encode_fields
          stats_sent_append)
  qed
qed


lemma ingest_char:
  assumes "cur_ok w"
  shows "ingest w s =
    (case outSpans (conc w) of
       None \<Rightarrow> Blocks (store w (the (cur_addr w)) (HandleSpan (heap w ! the (cur_addr w)) s))
     | Some ch \<Rightarrow>
         if CloseSpans ch \<in> set (trace w) then Panics SendOnClosedChannel
         else Returns (emit (store w (the (cur_addr w)) (HandleSpan (heap w ! the (cur_addr w)) s))
                 (SendSpan ch s)))"
  using assms
  by (elim cur_okE)
     (simp add: ingest_def HandleNewSpan_def cur_addr_def[symmetric] deref_Some and_then_def
        send_span_def store_def split: option.splits)

lemma store_fields [simp]:
  "trace (store w a b) = trace w"
  "conc (store w a b) = conc w"
  "length (heap (store w a b)) = length (heap w)"
  "closer (store w a b) = closer w"
  "ingestor (store w a b) = ingestor w"
  "cur_addr (store w a b) = cur_addr w"
  "cur_ok (store w a b) = cur_ok w"
  by (simp_all add: store_def cur_addr_def cur_ok_def)


text \<open>A step that sends no bucket, closes nothing and leaves the ring alone keeps the invariant.\<close>

lemma inv_quiet:
  assumes "inv w"
    and "conc w' = conc w" "length (heap w') = length (heap w)"
    and "trace w' = trace w @ tr" "stats_sent tr = []"
    and "\<forall>ch. CloseStats ch \<notin> set tr" "\<forall>ch. CloseSpans ch \<notin> set tr"
    and "closer w' = closer w"
  shows "inv w'"
proof -
  have ca: "cur_addr w' = cur_addr w" using assms(2) by (simp add: cur_addr_def)
  have ok: "cur_ok w'" using assms(1,2,3) ca by (simp add: inv_def cur_ok_def)
  have sa: "sent_addrs w' = sent_addrs w"
    using assms(4,5) by (simp add: sent_addrs_def stats_sent_append)
  show ?thesis
    using assms ok
    unfolding inv_def sa ca by auto
qed

lemma inv_closer_upd:
  assumes "inv w" "closer w \<noteq> Returned" "g = Running \<longrightarrow> exitGroup (conc w) \<noteq> None"
  shows "inv (w\<lparr>closer := g\<rparr>)"
  using assms by (auto simp: inv_def sent_addrs_def)

lemma inv_ingestor_upd:
  assumes "inv w"
  shows "inv (w\<lparr>ingestor := g\<rparr>)"
  using assms by (auto simp: inv_def sent_addrs_def)

lemma inv_ingest:
  assumes "inv w" "ingestor_moves (ingest w s) Running = Inr w'"
  shows "inv w'"
proof -
  from assms(1) have ok: "cur_ok w" by (simp add: inv_def)
  let ?w1 = "store w (the (cur_addr w)) (HandleSpan (heap w ! the (cur_addr w)) s)"
  have i1: "inv ?w1"
    by (rule inv_quiet[OF assms(1), where tr = "[]"]) simp_all
  show ?thesis
  proof (cases "outSpans (conc w)")
    case None
    with assms(2) have "w' = ?w1\<lparr>ingestor := Blocked\<rparr>"
      by (simp add: ingest_char[OF ok] ingestor_moves_def)
    then show ?thesis using i1 by (simp add: inv_ingestor_upd)
  next
    case (Some ch)
    with assms(2) have w': "w' = (emit ?w1 (SendSpan ch s))\<lparr>ingestor := Running\<rparr>"
      by (simp add: ingest_char[OF ok] ingestor_moves_def split: if_splits)
    have "inv (emit ?w1 (SendSpan ch s))"
      by (rule inv_quiet[OF i1, where tr = "[SendSpan ch s]"]) simp_all
    then show ?thesis unfolding w' by (rule inv_ingestor_upd)
  qed
qed

lemma inv_enter:
  assumes "inv w" "closer w = Spawned" "closer_moves (bucketCloser_enter w) Running = Inr w'"
  shows "inv w'"
proof -
  from assms(3) obtain g where g: "exitGroup (conc w) = Some g"
    and w': "w' = (emit (emit w (WgAdd g 1)) (NewTicker (bucketDuration (conc w))))\<lparr>closer := Running\<rparr>"
    by (auto simp: bucketCloser_enter_def closer_moves_def split: option.splits)
  let ?w2 = "emit (emit w (WgAdd g 1)) (NewTicker (bucketDuration (conc w)))"
  have "inv ?w2"
    by (rule inv_quiet[OF assms(1), where tr = "[WgAdd g 1, NewTicker (bucketDuration (conc w))]"])
       simp_all
  then show ?thesis unfolding w'
    by (rule inv_closer_upd) (simp_all add: assms(2) g)
qed


lemma exit_char:
  "bucketCloser_exit w =
    (case outSpans (conc w) of
       None \<Rightarrow> Panics CloseOfNilChannel
     | Some ch \<Rightarrow>
         if CloseSpans ch \<in> set (trace w) then Panics CloseOfClosedChannel
         else (case exitGroup (conc w) of
                 None \<Rightarrow> Panics NilWaitGroupPointer
               | Some g \<Rightarrow> Returns (w\<lparr>trace := trace w @
                   [LogInfo ''Concentrator exiting'', CloseSpans ch, WgDone g]\<rparr>)))"
  by (simp add: bucketCloser_exit_def Let_def emit_def split: option.splits)

lemma inv_exit:
  assumes "inv w" "closer w = Running" "closer_moves (bucketCloser_exit w) Returned = Inr w'"
  shows "inv w'"
proof -
  from assms(3) obtain ch g where ch: "outSpans (conc w) = Some ch"
    and g: "exitGroup (conc w) = Some g"
    and w': "w' = w\<lparr>trace := trace w @
                   [LogInfo ''Concentrator exiting'', CloseSpans ch, WgDone g], closer := Returned\<rparr>"
    by (auto simp: exit_char closer_moves_def split: option.splits if_splits)
  have ca: "cur_addr w' = cur_addr w" unfolding w' by (simp add: cur_addr_def)
  have ok: "cur_ok w'" using assms(1) ca unfolding w' by (simp add: inv_def cur_ok_def)
  have sa: "sent_addrs w' = sent_addrs w"
    unfolding w' by (simp add: sent_addrs_def stats_sent_append)
  show ?thesis
    using assms(1) ok ch
    unfolding inv_def sa ca by (auto simp: w')
qed

lemma inv_step:
  assumes "inv w" "step w ev = Inr w'"
  shows "inv w'"
proof (cases ev)
  case CloserBegins
  with assms show ?thesis by (auto intro: inv_enter split: if_splits)
next
  case (Tick t_new now)
  with assms show ?thesis by (auto intro: inv_tick split: if_splits)
next
  case ExitSignal
  with assms show ?thesis by (auto intro: inv_exit split: if_splits)
next
  case (SpanArrives s)
  with assms show ?thesis by (auto intro: inv_ingest split: if_splits)
next
  case InboundClosed
  with assms show ?thesis
    by (auto intro: inv_ingestor_upd split: if_splits)
qed

lemma inv_run:
  assumes "inv w" "run w evs = Inr w'"
  shows "inv w'"
  using assms
proof (induction evs arbitrary: w)
  case Nil
  then show ?case by simp
next
  case (Cons ev evs)
  from Cons.prems(2) obtain w1 where s: "step w ev = Inr w1" and r: "run w1 evs = Inr w'"
    by (auto split: sum.splits)
  from Cons.IH[OF inv_step[OF Cons.prems(1) s] r] show ?case .
qed

lemma reach_inv:
  "run (boot bd e ex eg i os osp t0) evs = Inr w \<Longrightarrow> inv w"
  by (rule inv_run[OF inv_boot])

subsection \<open>The configuration is fixed after \<open>Init\<close>\<close>

lemma same_config_refl [simp]: "same_config c c"
  by (simp add: same_config_def)

lemma same_config_after_encode: "same_config (conc w) (conc (after_encode w t_new now))"
  by (simp add: same_config_def after_encode_fields)

lemma config_step:
  assumes "inv w" "step w ev = Inr w'"
  shows "same_config (conc w) (conc w')"
proof -
  from assms(1) have ok: "cur_ok w" by (simp add: inv_def)
  show ?thesis
  proof (cases ev)
    case CloserBegins
    with assms(2) show ?thesis
      by (auto simp: bucketCloser_enter_def closer_moves_def split: if_splits option.splits)
  next
    case (Tick t_new now)
    with assms(2) show ?thesis
      by (auto simp: tick_char[OF ok] closer_moves_def same_config_def after_encode_fields
          split: if_splits option.splits)
  next
    case ExitSignal
    with assms(2) show ?thesis
      by (auto simp: exit_char closer_moves_def split: if_splits option.splits)
  next
    case (SpanArrives s)
    with assms(2) show ?thesis
      by (auto simp: ingest_char[OF ok] ingestor_moves_def split: if_splits option.splits)
  next
    case InboundClosed
    with assms(2) show ?thesis by (auto split: if_splits)
  qed
qed

lemma config_run:
  assumes "inv w" "run w evs = Inr w'"
  shows "same_config (conc w) (conc w')"
  using assms
proof (induction evs arbitrary: w)
  case Nil
  then show ?case by simp
next
  case (Cons ev evs)
  from Cons.prems(2) obtain w1 where s: "step w ev = Inr w1" and r: "run w1 evs = Inr w'"
    by (auto split: sum.splits)
  from Cons.IH[OF inv_step[OF Cons.prems(1) s] r] config_step[OF Cons.prems(1) s]
  show ?case by (simp add: same_config_def)
qed

lemma boot_config:
  "inSpans (conc (boot bd e ex eg i os osp t0)) = i"
  "outStats (conc (boot bd e ex eg i os osp t0)) = os"
  "outSpans (conc (boot bd e ex eg i os osp t0)) = osp"
  "exit (conc (boot bd e ex eg i os osp t0)) = ex"
  "exitGroup (conc (boot bd e ex eg i os osp t0)) = eg"
  "bucketDuration (conc (boot bd e ex eg i os osp t0)) = bd"
  "eps (conc (boot bd e ex eg i os osp t0)) = e"
  by (simp_all add: boot_def Start_def Init_def fresh_def NewConcentrator_def alloc_def emit_def)

lemma reach_config:
  assumes "run (boot bd e ex eg i os osp t0) evs = Inr w"
  shows "inSpans (conc w) = i" "outStats (conc w) = os" "outSpans (conc w) = osp"
    "exit (conc w) = ex" "exitGroup (conc w) = eg" "bucketDuration (conc w) = bd"
    "eps (conc w) = e"
  using config_run[OF inv_boot assms] by (simp_all add: same_config_def boot_config)


subsection \<open>No panic on a bucket pointer\<close>

lemma handle_ok:
  assumes "cur_ok w"
  shows "HandleNewSpan w s =
     Returns (store w (the (cur_addr w)) (HandleSpan (heap w ! the (cur_addr w)) s))"
  using assms
  by (elim cur_okE) (simp add: HandleNewSpan_def cur_addr_def[symmetric] deref_Some)

lemma no_bucket_panic_step:
  assumes "inv w"
  shows "step w ev \<noteq> Inl NilBucketPointer \<and> step w ev \<noteq> Inl IndexOutOfRange"
proof -
  from assms have ok: "cur_ok w" by (simp add: inv_def)
  show ?thesis
  proof (cases ev)
    case CloserBegins
    then show ?thesis
      by (auto simp: bucketCloser_enter_def closer_moves_def split: option.splits)
  next
    case (Tick t_new now)
    then show ?thesis
      by (auto simp: tick_char[OF ok] closer_moves_def split: option.splits)
  next
    case ExitSignal
    then show ?thesis
      by (auto simp: exit_char closer_moves_def split: option.splits)
  next
    case (SpanArrives s)
    then show ?thesis
      by (auto simp: ingest_char[OF ok] ingestor_moves_def split: option.splits)
  next
    case InboundClosed
    then show ?thesis by auto
  qed
qed

lemma no_bucket_panic_run:
  assumes "inv w"
  shows "run w evs \<noteq> Inl NilBucketPointer \<and> run w evs \<noteq> Inl IndexOutOfRange"
  using assms
proof (induction evs arbitrary: w)
  case Nil
  then show ?case by simp
next
  case (Cons ev evs)
  show ?case
  proof (cases "step w ev")
    case (Inl p)
    with no_bucket_panic_step[OF Cons.prems, of ev] show ?thesis by auto
  next
    case (Inr w1)
    with Cons.IH[OF inv_step[OF Cons.prems Inr]] show ?thesis by simp
  qed
qed

subsection \<open>The world after \<open>Start\<close>\<close>

lemma boot_ring:
  "cur_ok (boot bd e ex eg i os osp t0)"
  "cur_addr (boot bd e ex eg i os osp t0) = Some 0"
  "heap (boot bd e ex eg i os osp t0) = [NewStatsBucket e t0]"
  "openBucket (conc (boot bd e ex eg i os osp t0)) = [Some 0, None]"
  "currentBucket (conc (boot bd e ex eg i os osp t0)) = 0"
  "stats_sent (trace (boot bd e ex eg i os osp t0)) = []"
  "\<forall>ch. CloseStats ch \<notin> set (trace (boot bd e ex eg i os osp t0))"
  by (simp_all add: cur_ok_def cur_addr_def slot_def boot_def Start_def Init_def fresh_def
      NewConcentrator_def alloc_def emit_def)

lemma added_append [simp]: "trace w' = trace w @ tr \<Longrightarrow> added w w' = tr"
  by (simp add: added_def)

subsection \<open>One close, by a closer that returns\<close>

lemma closed_once_step:
  assumes "inv w" "closed_once w" "step w ev = Inr w'"
  shows "closed_once w'"
proof -
  from assms(1) have ok: "cur_ok w" by (simp add: inv_def)
  show ?thesis
  proof (cases ev)
    case CloserBegins
    with assms(2,3) show ?thesis
      by (auto simp: bucketCloser_enter_def closer_moves_def closed_once_def closes_def
          split: if_splits option.splits)
  next
    case (Tick t_new now)
    with assms(2,3) show ?thesis
      by (auto simp: tick_char[OF ok] closer_moves_def closed_once_def closes_def
          after_encode_fields split: if_splits option.splits)
  next
    case ExitSignal
    with assms(2,3) show ?thesis
      by (auto simp: exit_char closer_moves_def closed_once_def closes_def
          split: if_splits option.splits)
  next
    case (SpanArrives s)
    with assms(2,3) show ?thesis
      by (auto simp: ingest_char[OF ok] ingestor_moves_def closed_once_def closes_def
          split: if_splits option.splits)
  next
    case InboundClosed
    with assms(2,3) show ?thesis
      by (auto simp: closed_once_def closes_def split: if_splits)
  qed
qed

lemma closed_once_run:
  assumes "inv w" "closed_once w" "run w evs = Inr w'"
  shows "closed_once w'"
  using assms
proof (induction evs arbitrary: w)
  case Nil
  then show ?case by simp
next
  case (Cons ev evs)
  from Cons.prems(3) obtain w1 where s: "step w ev = Inr w1" and r: "run w1 evs = Inr w'"
    by (auto split: sum.splits)
  from Cons.IH[OF inv_step[OF Cons.prems(1) s] closed_once_step[OF Cons.prems(1,2) s] r]
  show ?case .
qed

lemma closed_once_boot: "closed_once (boot bd e ex eg i os osp t0)"
  by (simp add: closed_once_def closes_def boot_def Start_def Init_def fresh_def
      NewConcentrator_def alloc_def emit_def)

subsection \<open>The buckets sent by a run of ticks\<close>

lemma view_append [simp]: "view (xs @ ys) = view xs @ view ys"
  by (simp add: view_def)

lemma heap_after_encode_new:
  assumes "cur_ok w"
  shows "heap (after_encode w t_new now) ! length (heap w) = NewStatsBucket (eps (conc w)) t_new"
  using assms
  by (elim cur_okE)
     (simp add: after_encode_def after_flip_def after_stamp_def after_alloc_def nth_append)

lemma tick_step:
  assumes "inv w" "closer w = Running" "outStats (conc w) = Some ch"
  shows "\<exists>w1. step w (Tick t_new now) = Inr w1 \<and> inv w1 \<and> closer w1 = Running
      \<and> outStats (conc w1) = Some ch
      \<and> cur_addr w1 = Some (length (heap w))
      \<and> length (heap w1) = Suc (length (heap w))
      \<and> sbStart (heap w1 ! length (heap w)) = t_new
      \<and> stats_sent (trace w1) =
          stats_sent (trace w) @ [(the (cur_addr w), Encode (stamped w now))]"
proof -
  from assms(1) have ok: "cur_ok w" by (simp add: inv_def)
  let ?l = "LogInfo ''Concentrator flushed a time bucket''"
  let ?w4 = "after_encode (emit w ?l) t_new now"
  let ?w1 = "(emit ?w4 (SendStats ch (the (cur_addr w)) (Encode (stamped w now))))\<lparr>closer := Running\<rparr>"
  have ok0: "cur_ok (emit w ?l)" using ok by simp
  have nc: "CloseStats ch \<notin> set (trace w)" using assms(1) by (simp add: inv_def)
  have s: "step w (Tick t_new now) = Inr ?w1"
    using assms(2,3) nc by (simp add: tick_char[OF ok] closer_moves_def)
  have "inv ?w1" using inv_step[OF assms(1) s] .
  moreover have "cur_addr ?w1 = Some (length (heap w))"
    using cur_addr_after_encode[OF ok0, of t_new now] by simp
  moreover have "sbStart (heap ?w1 ! length (heap w)) = t_new"
    using heap_after_encode_new[OF ok0, of t_new now] by (simp add: NewStatsBucket_def)
  ultimately show ?thesis
    using s assms(3) by (simp add: after_encode_fields stats_sent_append)
qed

lemma quiet_step:
  assumes "inv w" "closer w = Running"
    and "ev = CloserBegins \<or> ev = InboundClosed \<or> (\<exists>s. ev = SpanArrives s)"
  shows "\<exists>w1. step w ev = Inr w1 \<and> inv w1 \<and> closer w1 = Running
      \<and> conc w1 = conc w
      \<and> length (heap w1) = length (heap w)
      \<and> sbStart (heap w1 ! the (cur_addr w)) = sbStart (heap w ! the (cur_addr w))
      \<and> stats_sent (trace w1) = stats_sent (trace w)"
proof -
  from assms(1) have ok: "cur_ok w" by (simp add: inv_def)
  then obtain a where a: "cur_addr w = Some a" "a < length (heap w)" by (elim cur_okE)
  have nc: "\<And>ch. CloseSpans ch \<notin> set (trace w)" using assms(1,2) by (auto simp: inv_def)
  from assms(3) have "\<exists>w1. step w ev = Inr w1 \<and> closer w1 = Running
      \<and> conc w1 = conc w
      \<and> length (heap w1) = length (heap w)
      \<and> sbStart (heap w1 ! the (cur_addr w)) = sbStart (heap w ! the (cur_addr w))
      \<and> stats_sent (trace w1) = stats_sent (trace w)"
  proof (elim disjE exE)
    assume "ev = CloserBegins"
    then show ?thesis using assms(2) by simp
  next
    assume "ev = InboundClosed"
    then show ?thesis using assms(2) by simp
  next
    fix s assume "ev = SpanArrives s"
    then show ?thesis using assms(2) a nc
      by (auto simp: ingest_char[OF ok] ingestor_moves_def store_def HandleSpan_def
          stats_sent_append split: option.splits)
  qed
  then obtain w1 where w1: "step w ev = Inr w1" "closer w1 = Running"
      "conc w1 = conc w" "length (heap w1) = length (heap w)"
      "sbStart (heap w1 ! the (cur_addr w)) = sbStart (heap w ! the (cur_addr w))"
      "stats_sent (trace w1) = stats_sent (trace w)"
    by blast
  with inv_step[OF assms(1) w1(1)] show ?thesis by blast
qed

lemma ticks_run:
  assumes "inv w" "closer w = Running" "outStats (conc w) = Some ch" "ExitSignal \<notin> set evs"
  shows "\<exists>w'. run w evs = Inr w'
      \<and> view (stats_sent (trace w')) =
          view (stats_sent (trace w)) @
          expected (the (cur_addr w)) (sbStart (heap w ! the (cur_addr w))) (length (heap w))
            (ticks_of evs)"
  using assms
proof (induction evs arbitrary: w)
  case Nil
  then show ?case by simp
next
  case (Cons ev evs)
  from Cons.prems(4) have ne: "ev \<noteq> ExitSignal" and rest: "ExitSignal \<notin> set evs" by auto
  from Cons.prems(1) have ok: "cur_ok w" by (simp add: inv_def)
  then obtain a where a: "cur_addr w = Some a" "a < length (heap w)" by (elim cur_okE)
  show ?case
  proof (cases "\<exists>t_new now. ev = Tick t_new now")
    case True
    then obtain t_new now where ev: "ev = Tick t_new now" by blast
    from tick_step[OF Cons.prems(1,2,3), of t_new now] obtain w1 where
      w1: "step w (Tick t_new now) = Inr w1" "inv w1" "closer w1 = Running"
        "outStats (conc w1) = Some ch" "cur_addr w1 = Some (length (heap w))"
        "length (heap w1) = Suc (length (heap w))"
        "sbStart (heap w1 ! length (heap w)) = t_new"
        "stats_sent (trace w1) = stats_sent (trace w) @ [(the (cur_addr w), Encode (stamped w now))]"
      by blast
    from Cons.IH[OF w1(2,3,4) rest] obtain w' where
      w': "run w1 evs = Inr w'"
        "view (stats_sent (trace w')) = view (stats_sent (trace w1)) @
          expected (the (cur_addr w1)) (sbStart (heap w1 ! the (cur_addr w1))) (length (heap w1))
            (ticks_of evs)"
      by blast
    have v: "view [(the (cur_addr w), Encode (stamped w now))] =
        [(a, sbStart (heap w ! a), now - sbStart (heap w ! a), True)]"
      using a by (simp add: view_def Encode_def stamped_def Let_def)
    show ?thesis
      using w1 w' a v by (simp add: ev)
  next
    case False
    with ne have q: "ev = CloserBegins \<or> ev = InboundClosed \<or> (\<exists>s. ev = SpanArrives s)"
      by (cases ev) auto
    from quiet_step[OF Cons.prems(1,2) q] obtain w1 where
      w1: "step w ev = Inr w1" "inv w1" "closer w1 = Running" "conc w1 = conc w"
        "length (heap w1) = length (heap w)"
        "sbStart (heap w1 ! the (cur_addr w)) = sbStart (heap w ! the (cur_addr w))"
        "stats_sent (trace w1) = stats_sent (trace w)"
      by blast
    have ca: "cur_addr w1 = cur_addr w" using w1(4) by (simp add: cur_addr_def)
    have os: "outStats (conc w1) = Some ch" using w1(4) Cons.prems(3) by simp
    from Cons.IH[OF w1(2,3) os rest] obtain w' where
      w': "run w1 evs = Inr w'"
        "view (stats_sent (trace w')) = view (stats_sent (trace w1)) @
          expected (the (cur_addr w1)) (sbStart (heap w1 ! the (cur_addr w1))) (length (heap w1))
            (ticks_of evs)"
      by blast
    have tk: "ticks_of (ev # evs) = ticks_of evs" using q by auto
    show ?thesis
      using w1 w' ca unfolding tk by simp
  qed
qed

lemma expected_zip:
  "expected a s n ts =
     map (\<lambda>(a, s, (t_new, now)). (a, s, now - s, True))
       (zip (a # [n..<n + length ts]) (zip (s # map fst ts) ts))"
proof (induction ts arbitrary: a s n)
  case Nil
  then show ?case by simp
next
  case (Cons t ts)
  obtain t_new now where t: "t = (t_new, now)" by (cases t)
  have "[n..<n + length (t # ts)] = n # [Suc n..<Suc n + length ts]"
    by (simp add: upt_rec)
  then show ?case using Cons.IH[of n t_new "Suc n"] by (simp add: t)
qed

lemma zip_upt_shorter:
  "length ys = k \<Longrightarrow> zip (0 # [1..<1 + k]) ys = zip [0..<k] ys"
proof -
  assume l: "length ys = k"
  have "0 # [1..<1 + k] = [0..<k] @ [k]"
    by (metis One_nat_def add.commute plus_1_eq_Suc upt_Suc_append upt_conv_Cons zero_le zero_less_Suc)
  then show ?thesis using l by (simp add: zip_append1)
qed


lemma enter_step:
  "step (boot bd e ex (Some g) i os osp t0) CloserBegins =
     Inr ((emit (emit (boot bd e ex (Some g) i os osp t0) (WgAdd g 1)) (NewTicker bd))
            \<lparr>closer := Running\<rparr>)"
  by (simp add: bucketCloser_enter_def closer_moves_def boot_config)
     (simp add: boot_def Start_def Init_def fresh_def NewConcentrator_def alloc_def emit_def)

subsection \<open>The spans forwarded by a run\<close>

lemma ingestor_same [simp]: "ingestor w = g \<Longrightarrow> w\<lparr>ingestor := g\<rparr> = w"
  by (cases w) simp

lemma span_step:
  assumes "inv w" "closer w \<noteq> Returned" "exitGroup (conc w) \<noteq> None"
    and "outSpans (conc w) = Some co" "inSpans (conc w) \<noteq> None"
    and "ingestor w = Running \<or> ingestor w = Returned" "ev \<noteq> ExitSignal"
  shows "\<exists>w1. step w ev = Inr w1 \<and> closer w1 \<noteq> Returned
      \<and> spans_sent (trace w1) =
          spans_sent (trace w) @ (if ingestor w = Running then arrival ev else [])
      \<and> ingestor w1 = (if ingestor w = Running \<and> ev \<noteq> InboundClosed then Running else Returned)"
proof -
  from assms(1) have ok: "cur_ok w" by (simp add: inv_def)
  have nc: "CloseSpans co \<notin> set (trace w)" using assms(1,2) by (auto simp: inv_def)
  have ns: "\<And>ch. CloseStats ch \<notin> set (trace w)" using assms(1) by (auto simp: inv_def)
  show ?thesis
  proof (cases ev)
    case CloserBegins
    then show ?thesis using assms(2,3,6)
      by (auto simp: bucketCloser_enter_def closer_moves_def spans_sent_append)
  next
    case (Tick t_new now)
    then show ?thesis using assms(2,6) ns
      by (auto simp: tick_char[OF ok] closer_moves_def spans_sent_append after_encode_fields
          split: option.splits)
  next
    case ExitSignal
    with assms(7) show ?thesis by simp
  next
    case (SpanArrives s)
    then show ?thesis using assms(2,4,5,6) nc
      by (auto simp: ingest_char[OF ok] ingestor_moves_def spans_sent_append)
  next
    case InboundClosed
    then show ?thesis using assms(2,5,6) by auto
  qed
qed

lemma spans_run:
  assumes "inv w" "closer w \<noteq> Returned" "exitGroup (conc w) \<noteq> None"
    and "outSpans (conc w) = Some co" "inSpans (conc w) \<noteq> None"
    and "ingestor w = Running \<or> ingestor w = Returned" "ExitSignal \<notin> set evs"
  shows "\<exists>w'. run w evs = Inr w' \<and> closer w' \<noteq> Returned
      \<and> spans_sent (trace w') =
          spans_sent (trace w) @ (if ingestor w = Running then arrivals evs else [])
      \<and> ingestor w' =
          (if ingestor w = Running \<and> InboundClosed \<notin> set evs then Running else Returned)"
  using assms
proof (induction evs arbitrary: w)
  case Nil
  then show ?case by auto
next
  case (Cons ev evs)
  from Cons.prems(7) have ne: "ev \<noteq> ExitSignal" and rest: "ExitSignal \<notin> set evs" by auto
  from span_step[OF Cons.prems(1-6) ne] obtain w1 where
    w1: "step w ev = Inr w1" "closer w1 \<noteq> Returned"
      "spans_sent (trace w1) =
          spans_sent (trace w) @ (if ingestor w = Running then arrival ev else [])"
      "ingestor w1 = (if ingestor w = Running \<and> ev \<noteq> InboundClosed then Running else Returned)"
    by blast
  have i1: "inv w1" by (rule inv_step[OF Cons.prems(1) w1(1)])
  have c1: "exitGroup (conc w1) \<noteq> None" "outSpans (conc w1) = Some co"
      "inSpans (conc w1) \<noteq> None"
    using config_step[OF Cons.prems(1) w1(1)] Cons.prems(3,4,5)
    by (simp_all add: same_config_def)
  have g1: "ingestor w1 = Running \<or> ingestor w1 = Returned" using w1(4) by simp
  from Cons.IH[OF i1 w1(2) c1 g1 rest] obtain w' where
    w': "run w1 evs = Inr w'" "closer w' \<noteq> Returned"
      "spans_sent (trace w') =
          spans_sent (trace w1) @ (if ingestor w1 = Running then arrivals evs else [])"
      "ingestor w' =
          (if ingestor w1 = Running \<and> InboundClosed \<notin> set evs then Running else Returned)"
    by blast
  have r: "run w (ev # evs) = Inr w'" using w1(1) w'(1) by simp
  have sp: "spans_sent (trace w') =
          spans_sent (trace w) @ (if ingestor w = Running then arrivals (ev # evs) else [])"
    unfolding w'(3) w1(3,4) using ne by (cases ev) simp_all
  have ig: "ingestor w' =
          (if ingestor w = Running \<and> InboundClosed \<notin> set (ev # evs) then Running else Returned)"
    unfolding w'(4) w1(4) by auto
  from r w'(2) sp ig show ?case by blast
qed

text \<open>
  Where the outbound span channel stays open, the ingestor does what is asked of it.
  Take an execution with \<open>inSpans\<close> and \<open>outSpans\<close> channels in which no exit
  signal is taken, ticks coming as they may. It does not panic; the spans sent on
  \<open>outSpans\<close> are exactly the spans received, in the order of arrival; the ingestor
  never closes \<open>outSpans\<close>; it has returned once the inbound channel is closed. Until
  then it is at the head of its loop, and for the next span it first has
  \<open>HandleNewSpan\<close> add the span to the current bucket and then sends the same span on
  \<open>outSpans\<close>, in the world where the bucket already holds it.
\<close>

theorem ingestor_forwards_in_order:
  assumes "ExitSignal \<notin> set evs"
  shows "\<exists>w. run (boot bd e ex (Some g) (Some ci) os (Some co) t0) evs = Inr w
    \<and> spans_sent (trace w) = arrivals evs
    \<and> (\<forall>ch. CloseSpans ch \<notin> set (trace w))
    \<and> (InboundClosed \<in> set evs \<longrightarrow> ingestor w = Returned)
    \<and> (InboundClosed \<notin> set evs \<longrightarrow> ingestor w = Running
         \<and> (\<forall>s. \<exists>a w1. cur_addr w = Some a
               \<and> HandleNewSpan w s = Returns w1
               \<and> w1 = store w a (HandleSpan (heap w ! a) s)
               \<and> send_span w1 s = Returns (emit w1 (SendSpan co s))
               \<and> step w (SpanArrives s) = Inr (emit w1 (SendSpan co s))))"
proof -
  let ?B = "boot bd e ex (Some g) (Some ci) os (Some co) t0"
  have b: "closer ?B \<noteq> Returned" "exitGroup (conc ?B) \<noteq> None" "outSpans (conc ?B) = Some co"
    "inSpans (conc ?B) \<noteq> None" "ingestor ?B = Running \<or> ingestor ?B = Returned"
    "ingestor ?B = Running" "spans_sent (trace ?B) = []"
    by (simp_all add: boot_config)
       (simp_all add: boot_def Start_def Init_def fresh_def NewConcentrator_def alloc_def emit_def)
  from spans_run[OF inv_boot b(1-5) assms] obtain w where
    w: "run ?B evs = Inr w" "closer w \<noteq> Returned"
      "spans_sent (trace w) = arrivals evs"
      "ingestor w = (if InboundClosed \<notin> set evs then Running else Returned)"
    unfolding b(7) using b(6) by auto
  have i: "inv w" by (rule reach_inv[OF w(1)])
  then have ok: "cur_ok w" by (simp add: inv_def)
  then obtain a where a: "cur_addr w = Some a" by (elim cur_okE)
  note cfg = reach_config[OF w(1)]
  have nc: "\<forall>ch. CloseSpans ch \<notin> set (trace w)" using i w(2) by (auto simp: inv_def)
  have C: "InboundClosed \<in> set evs \<longrightarrow> ingestor w = Returned" using w(4) by simp
  have D: "InboundClosed \<notin> set evs \<longrightarrow> ingestor w = Running
         \<and> (\<forall>s. \<exists>a w1. cur_addr w = Some a
               \<and> HandleNewSpan w s = Returns w1
               \<and> w1 = store w a (HandleSpan (heap w ! a) s)
               \<and> send_span w1 s = Returns (emit w1 (SendSpan co s))
               \<and> step w (SpanArrives s) = Inr (emit w1 (SendSpan co s)))"
  proof (intro impI conjI allI)
    assume "InboundClosed \<notin> set evs"
    then show g: "ingestor w = Running" using w(4) by simp
    fix s
    let ?w1 = "store w a (HandleSpan (heap w ! a) s)"
    have h: "HandleNewSpan w s = Returns ?w1" using handle_ok[OF ok, of s] a by simp
    have sd: "send_span ?w1 s = Returns (emit ?w1 (SendSpan co s))"
      using cfg(3) nc by (simp add: send_span_def)
    have st: "step w (SpanArrives s) = Inr (emit ?w1 (SendSpan co s))"
      using g cfg(1) h sd by (simp add: ingest_def and_then_def ingestor_moves_def)
    from a h sd st
    show "\<exists>a w1. cur_addr w = Some a
               \<and> HandleNewSpan w s = Returns w1
               \<and> w1 = store w a (HandleSpan (heap w ! a) s)
               \<and> send_span w1 s = Returns (emit w1 (SendSpan co s))
               \<and> step w (SpanArrives s) = Inr (emit w1 (SendSpan co s))"
      by blast
  qed
  show ?thesis
    apply (rule exI[of _ w])
    apply (intro conjI)
        apply (rule w(1))
       apply (rule w(3))
      apply (rule nc)
     apply (rule C)
    apply (rule D)
    done
qed

theorem ingestor_forwards_in_order_witness:
  "ExitSignal \<notin> set [SpanArrives (Span 1), CloserBegins, SpanArrives (Span 2), Tick 2 2,
       SpanArrives (Span 3), InboundClosed]
   \<and> (\<exists>w. run demo [SpanArrives (Span 1), CloserBegins, SpanArrives (Span 2), Tick 2 2,
              SpanArrives (Span 3), InboundClosed] = Inr w
        \<and> spans_sent (trace w) = [Span 1, Span 2, Span 3]
        \<and> ingestor w = Returned)"
proof -
  let ?evs = "[SpanArrives (Span 1), CloserBegins, SpanArrives (Span 2), Tick 2 2,
       SpanArrives (Span 3), InboundClosed]"
  have h: "ExitSignal \<notin> set ?evs" by simp
  from ingestor_forwards_in_order[OF h, of 10 7 "Some (Chan 0)" "WaitGroup 0" "Chan 1"
      "Some (Chan 2)" "Chan 3" 0]
  obtain w where r: "run demo ?evs = Inr w"
    and sp: "spans_sent (trace w) = arrivals ?evs"
    and ig: "InboundClosed \<in> set ?evs \<longrightarrow> ingestor w = Returned"
    unfolding demo_def by blast
  have sp2: "spans_sent (trace w) = [Span 1, Span 2, Span 3]" using sp by simp
  have ig2: "ingestor w = Returned" using ig by simp
  show ?thesis
    apply (rule conjI[OF h])
    apply (rule exI[of _ w])
    apply (intro conjI)
      apply (rule r)
     apply (rule sp2)
    apply (rule ig2)
    done
qed

subsection \<open>The wait group and the close of the span channel\<close>

lemma wg_counter_append [simp]:
  "wg_counter g (xs @ ys) = wg_counter g xs + wg_counter g ys"
  by (simp add: wg_counter_def)

lemma wg_counter_simps [simp]:
  "wg_counter g [] = 0"
  "wg_counter g (x # xs) = wg_delta g x + wg_counter g xs"
  by (simp_all add: wg_counter_def)

lemma wg_inv_boot: "wg_inv g (boot bd e ex (Some g) i os osp t0)"
  by (simp add: wg_inv_def spans_closed_def boot_def Start_def Init_def fresh_def
      NewConcentrator_def alloc_def emit_def split: option.splits)

lemma wg_inv_step:
  assumes "inv w" "wg_inv g w" "step w ev = Inr w'"
  shows "wg_inv g w'"
proof -
  from assms(1) have ok: "cur_ok w" by (simp add: inv_def)
  show ?thesis
  proof (cases ev)
    case CloserBegins
    with assms(2,3) show ?thesis
      by (auto simp: bucketCloser_enter_def closer_moves_def wg_inv_def spans_closed_def
          split: if_splits option.splits)
  next
    case (Tick t_new now)
    with assms(2,3) show ?thesis
      by (auto simp: tick_char[OF ok] closer_moves_def wg_inv_def spans_closed_def
          after_encode_fields split: if_splits option.splits)
  next
    case ExitSignal
    with assms(2,3) show ?thesis
      by (auto simp: exit_char closer_moves_def wg_inv_def spans_closed_def
          split: if_splits option.splits)
  next
    case (SpanArrives s)
    with assms(2,3) show ?thesis
      by (auto simp: ingest_char[OF ok] ingestor_moves_def wg_inv_def spans_closed_def
          split: if_splits option.splits)
  next
    case InboundClosed
    with assms(2,3) show ?thesis
      by (auto simp: wg_inv_def spans_closed_def split: if_splits option.splits)
  qed
qed

lemma wg_inv_run:
  assumes "inv w" "wg_inv g w" "run w evs = Inr w'"
  shows "wg_inv g w'"
  using assms
proof (induction evs arbitrary: w)
  case Nil
  then show ?case by simp
next
  case (Cons ev evs)
  from Cons.prems(3) obtain w1 where s: "step w ev = Inr w1" and r: "run w1 evs = Inr w'"
    by (auto split: sum.splits)
  from Cons.IH[OF inv_step[OF Cons.prems(1) s] wg_inv_step[OF Cons.prems(1,2) s] r]
  show ?case .
qed

text \<open>
  Once \<open>bucketCloser\<close> has run its \<open>Add(1)\<close>, the wait group does its job: the
  counter is 1 while the closer is in its loop (or blocked in a flush) and 0 after it
  has returned; the span channel is closed exactly when the closer has returned. So a
  \<open>Wait\<close> that finds the counter at 0 after the closer has entered finds
  \<open>outSpans\<close> closed. Before the closer has entered, the counter is 0 as well.
\<close>

proposition waiter_released_after_close:
  assumes "run (boot bd e ex (Some g) i os osp t0) evs = Inr w"
  shows "wg_counter g (trace w) = (if closer w = Running \<or> closer w = Blocked then 1 else 0)"
    and "closer w = Spawned \<or> closer w = Running \<or> closer w = Blocked \<or> closer w = Returned"
    and "spans_closed w = (closer w = Returned)"
    and "closer w \<noteq> Spawned \<Longrightarrow> wg_counter g (trace w) = 0 \<Longrightarrow> spans_closed w"
proof -
  have wi: "wg_inv g w" by (rule wg_inv_run[OF inv_boot wg_inv_boot assms])
  show "wg_counter g (trace w) = (if closer w = Running \<or> closer w = Blocked then 1 else 0)"
    using wi by (simp add: wg_inv_def)
  show "closer w = Spawned \<or> closer w = Running \<or> closer w = Blocked \<or> closer w = Returned"
    using wi by (cases "closer w") (simp_all add: wg_inv_def)
  show "spans_closed w = (closer w = Returned)"
    using wi by (auto simp: wg_inv_def split: if_splits)
  show "closer w \<noteq> Spawned \<Longrightarrow> wg_counter g (trace w) = 0 \<Longrightarrow> spans_closed w"
    using wi by (cases "closer w") (auto simp: wg_inv_def split: if_splits)
qed

section \<open>The claims\<close>

text \<open>
  C1, as the code has it. After \<open>Start\<close> slot 1 is nil, but the slot a rotation sends
  is chosen after the index is flipped: it is slot 0, the bucket that \<open>Start\<close> allocated
  and that this rotation has just closed. So the first rotation does emit a bucket (when
  \<open>outStats\<close> is a channel): the first bucket, with its Duration set to the clock
  value minus its Start, encoded; the fresh bucket is in slot 1 and is the current one.
\<close>

theorem first_rotation_sends_first_bucket:
  "slot (openBucket (conc (boot bd e ex eg i (Some ch) osp t0))) 1 = None
   \<and> (\<exists>w'. flush (boot bd e ex eg i (Some ch) osp t0) t_new now = Returns w'
        \<and> stats_sent (trace w') =
            [(0, \<lparr>sbStart = t0, sbDuration = now - t0, sbEps = e, sbSpans = [],
                  sbEncoded = True\<rparr>)]
        \<and> heap w' =
            [\<lparr>sbStart = t0, sbDuration = now - t0, sbEps = e, sbSpans = [], sbEncoded = True\<rparr>,
             NewStatsBucket e t_new]
        \<and> openBucket (conc w') = [Some 0, Some 1]
        \<and> currentBucket (conc w') = 1)"
proof -
  let ?B = "boot bd e ex eg i (Some ch) osp t0"
  have f: "flush ?B t_new now =
      send_stats (after_encode ?B t_new now) 0 (Encode (stamped ?B now))"
    using flush_char[OF boot_ring(1), of bd e ex eg i "Some ch" osp t0 t_new now]
    by (simp add: boot_ring)
  have st: "Encode (stamped ?B now) =
      \<lparr>sbStart = t0, sbDuration = now - t0, sbEps = e, sbSpans = [], sbEncoded = True\<rparr>"
    by (simp add: stamped_def boot_ring Encode_def NewStatsBucket_def)
  have ae: "heap (after_encode ?B t_new now) =
      [\<lparr>sbStart = t0, sbDuration = now - t0, sbEps = e, sbSpans = [], sbEncoded = True\<rparr>,
       NewStatsBucket e t_new]"
    "openBucket (conc (after_encode ?B t_new now)) = [Some 0, Some 1]"
    "currentBucket (conc (after_encode ?B t_new now)) = 1"
    unfolding after_encode_def after_flip_def after_stamp_def after_alloc_def
    by (simp_all add: boot_ring boot_config st)
  show ?thesis
    using boot_ring(6,7)[of bd e ex eg i "Some ch" osp t0]
    by (simp add: f st send_stats_def after_encode_fields boot_config ae boot_ring(4)
        slot_def stats_sent_append)
qed

theorem first_rotation_sends_first_bucket_witness:
  "returned (flush demo 2 2) \<noteq> None
   \<and> currentBucket (conc (the (returned (flush demo 2 2)))) = 1
   \<and> openBucket (conc (the (returned (flush demo 2 2)))) = [Some 0, Some 1]"
  using first_rotation_sends_first_bucket[of 10 7 "Some (Chan 0)" "Some (WaitGroup 0)"
      "Some (Chan 1)" "Chan 2" "Some (Chan 3)" 0 2 2]
  by (auto simp: demo_def)

text \<open>
  The claim as stated, that the first rotation after \<open>Start\<close> emits nothing, fails:
  in the example program the first flush sends the bucket at address 0.
\<close>

theorem first_rotation_emits_counterexample:
  "returned (flush demo 2 2) \<noteq> None
   \<and> stats_sent (trace (the (returned (flush demo 2 2)))) =
       [(0, \<lparr>sbStart = 0, sbDuration = 2, sbEps = 7, sbSpans = [], sbEncoded = True\<rparr>)]"
  by code_simp

text \<open>
  C2, as the code has it. Take an execution in which \<open>bucketCloser\<close> has entered its
  loop and no exit signal is taken, with \<open>k\<close> ticks (rotations), spans arriving in
  between as they may. It does not panic and exactly \<open>k\<close> buckets are sent, one by
  each rotation, in the order of the rotations. The bucket sent by rotation number
  \<open>j\<close> (from 0) is the one at address \<open>j\<close>: the bucket that was current when the
  rotation began, allocated by \<open>Start\<close> for \<open>j = 0\<close> and by rotation \<open>j - 1\<close>
  otherwise. Its Start is the clock value read at its allocation, its Duration the clock
  value of rotation \<open>j\<close> minus that Start, and it is encoded.
\<close>

theorem rotations_emit_in_order:
  assumes "ExitSignal \<notin> set evs"
  shows "\<exists>w. run (boot bd e ex (Some g) i (Some ch) osp t0) (CloserBegins # evs) = Inr w
    \<and> length (stats_sent (trace w)) = length (ticks_of evs)
    \<and> map (\<lambda>(a, b). (a, sbStart b, sbDuration b, sbEncoded b)) (stats_sent (trace w)) =
        map (\<lambda>(a, s, (t_new, now)). (a, s, now - s, True))
          (zip [0..<length (ticks_of evs)]
             (zip (t0 # map fst (ticks_of evs)) (ticks_of evs)))"
proof -
  let ?B = "boot bd e ex (Some g) i (Some ch) osp t0"
  let ?w0 = "(emit (emit ?B (WgAdd g 1)) (NewTicker bd))\<lparr>closer := Running\<rparr>"
  have s0: "step ?B CloserBegins = Inr ?w0" by (rule enter_step)
  have i0: "inv ?w0" by (rule inv_step[OF inv_boot s0])
  have f0: "closer ?w0 = Running" "outStats (conc ?w0) = Some ch"
    "cur_addr ?w0 = Some 0" "heap ?w0 = [NewStatsBucket e t0]"
    "stats_sent (trace ?w0) = []"
    by (simp_all add: boot_config boot_ring stats_sent_append)
  from ticks_run[OF i0 f0(1,2) assms] obtain w where
    w: "run ?w0 evs = Inr w"
      "view (stats_sent (trace w)) = view (stats_sent (trace ?w0)) @
          expected (the (cur_addr ?w0)) (sbStart (heap ?w0 ! the (cur_addr ?w0)))
            (length (heap ?w0)) (ticks_of evs)"
    by blast
  have r: "run ?B (CloserBegins # evs) = Inr w" using s0 w(1) by simp
  have v: "view (stats_sent (trace w)) = expected 0 t0 1 (ticks_of evs)"
    using w(2) unfolding f0 by (simp add: view_def NewStatsBucket_def)
  have z: "view (stats_sent (trace w)) =
      map (\<lambda>(a, s, (t_new, now)). (a, s, now - s, True))
          (zip [0..<length (ticks_of evs)]
             (zip (t0 # map fst (ticks_of evs)) (ticks_of evs)))"
    unfolding v expected_zip
    using zip_upt_shorter[of "zip (t0 # map fst (ticks_of evs)) (ticks_of evs)" "length (ticks_of evs)"]
    by simp
  have "length (view (stats_sent (trace w))) = length (ticks_of evs)"
    unfolding z by simp
  then have l: "length (stats_sent (trace w)) = length (ticks_of evs)"
    by (simp add: view_def)
  from r l z show ?thesis unfolding view_def by blast
qed

theorem rotations_emit_in_order_witness:
  "ExitSignal \<notin> set [SpanArrives (Span 1), Tick 2 2, Tick 4 5]
   \<and> (\<exists>w. run demo [CloserBegins, SpanArrives (Span 1), Tick 2 2, Tick 4 5] = Inr w
        \<and> length (stats_sent (trace w)) = 2
        \<and> map (\<lambda>(a, b). (a, sbStart b, sbDuration b, sbEncoded b)) (stats_sent (trace w)) =
            [(0, 0, 2, True), (1, 2, 3, True)])"
proof -
  have h: "ExitSignal \<notin> set [SpanArrives (Span 1), Tick 2 2, Tick 4 5]" by simp
  from rotations_emit_in_order[OF h, of 10 7 "Some (Chan 0)" "WaitGroup 0" "Some (Chan 1)"
      "Chan 2" "Some (Chan 3)" 0]
  obtain w where r: "run demo (CloserBegins # [SpanArrives (Span 1), Tick 2 2, Tick 4 5]) = Inr w"
    and l: "length (stats_sent (trace w)) =
        length (ticks_of [SpanArrives (Span 1), Tick 2 2, Tick 4 5])"
    and m: "map (\<lambda>(a, b). (a, sbStart b, sbDuration b, sbEncoded b)) (stats_sent (trace w)) =
        map (\<lambda>(a, s, (t_new, now)). (a, s, now - s, True))
          (zip [0..<length (ticks_of [SpanArrives (Span 1), Tick 2 2, Tick 4 5])]
             (zip (0 # map fst (ticks_of [SpanArrives (Span 1), Tick 2 2, Tick 4 5]))
                (ticks_of [SpanArrives (Span 1), Tick 2 2, Tick 4 5])))"
    unfolding demo_def by blast
  have t: "ticks_of [SpanArrives (Span 1), Tick 2 2, Tick 4 5] = [(2, 2), (4, 5)]" by simp
  have l2: "length (stats_sent (trace w)) = 2" using l unfolding t by simp
  have m2: "map (\<lambda>(a, b). (a, sbStart b, sbDuration b, sbEncoded b)) (stats_sent (trace w)) =
      [(0, 0, 2, True), (1, 2, 3, True)]"
    using m unfolding t by (simp add: upt_rec)
  show ?thesis
    apply (rule conjI[OF h])
    apply (rule exI[of _ w])
    apply (intro conjI)
      apply (rule r)
     apply (rule l2)
    apply (rule m2)
    done
qed

text \<open>
  The claim as stated fails: with two rotations, at clock values 2 and 5 after a
  \<open>Start\<close> at 0, two buckets are sent and not one, and the first of them has the
  Duration 2, the time from \<open>Start\<close> to the first rotation, not the time 3 between the
  two rotations.
\<close>

theorem one_bucket_fewer_than_rotations_counterexample:
  "\<not> isl (run demo [CloserBegins, Tick 2 2, Tick 5 5])
   \<and> stats_sent (trace (projr (run demo [CloserBegins, Tick 2 2, Tick 5 5]))) =
       [(0, \<lparr>sbStart = 0, sbDuration = 2, sbEps = 7, sbSpans = [], sbEncoded = True\<rparr>),
        (1, \<lparr>sbStart = 2, sbDuration = 3, sbEps = 7, sbSpans = [], sbEncoded = True\<rparr>)]"
  by code_simp

text \<open>
  C3, as the code has it. From a world whose ring is in order (with \<open>outStats\<close> a
  channel that is not closed), a flush does, in this order: it allocates a fresh bucket
  into the other slot \<open>(currentBucket + 1) % 2\<close>; it sets the Duration of the current
  bucket to the clock value minus its Start; it makes the other slot the current one;
  then it takes the slot that is now the other one. That slot holds the bucket whose
  Duration this same flush has just set (not one closed a rotation earlier), it is never
  nil, and the bucket is encoded and sent on \<open>outStats\<close>.
\<close>

theorem flush_in_order:
  assumes "cur_ok w" "outStats (conc w) = Some ch" "CloseStats ch \<notin> set (trace w)"
  shows "\<exists>a nb w1 w2 w3 b'.
      cur_addr w = Some a
    \<and> nb = int32_rem (currentBucket (conc w) + 1) 2
    \<and> nb \<noteq> currentBucket (conc w)
    \<and> flush_alloc w nb t_new = Returns w1
    \<and> openBucket (conc w1) = (openBucket (conc w))[nat (sint nb) := Some (length (heap w))]
    \<and> heap w1 = heap w @ [NewStatsBucket (eps (conc w)) t_new]
    \<and> currentBucket (conc w1) = currentBucket (conc w)
    \<and> b' = (heap w ! a)\<lparr>sbDuration := now - sbStart (heap w ! a)\<rparr>
    \<and> flush_stamp w1 now = Returns w2
    \<and> w2 = w1\<lparr>heap := (heap w1)[a := b']\<rparr>
    \<and> flush_flip w2 nb = w3
    \<and> w3 = w2\<lparr>conc := (conc w2)\<lparr>currentBucket := nb\<rparr>\<rparr>
    \<and> slot (openBucket (conc w3)) (int32_rem (currentBucket (conc w3) + 1) 2) = Some a
    \<and> flush w t_new now = flush_send w3
    \<and> flush_send w3 =
        Returns (w3\<lparr>heap := (heap w3)[a := Encode b'],
                    trace := trace w @ [SendStats ch a (Encode b')]\<rparr>)"
proof -
  from assms(1) obtain a where a: "cur_addr w = Some a" "a < length (heap w)"
    and nb: "int32_rem (currentBucket (conc w) + 1) 2 = 1 - currentBucket (conc w)"
    and ne: "nat (sint (1 - currentBucket (conc w))) \<noteq> nat (sint (currentBucket (conc w)))"
    by (elim cur_okE)
  let ?nb = "1 - currentBucket (conc w)"
  let ?w1 = "after_alloc w t_new"
  let ?w2 = "after_stamp w t_new now"
  let ?w3 = "after_flip w t_new now"
  let ?b' = "(heap w ! a)\<lparr>sbDuration := now - sbStart (heap w ! a)\<rparr>"
  have st: "stamped w now = ?b'" using a by (simp add: stamped_def Let_def)
  have cb3: "int32_rem (currentBucket (conc ?w3) + 1) 2 = currentBucket (conc w)"
    using assms(1) by (auto simp: after_flip_def cur_ok_def next_of_0 next_of_1)
  have sl: "slot (openBucket (conc ?w3)) (currentBucket (conc w)) = Some a"
    using assms(1) a
    by (elim cur_okE)
      (simp add: after_flip_def after_stamp_def after_alloc_def cur_addr_def slot_def)
  have fs: "flush_send ?w3 = Returns (?w3\<lparr>heap := (heap ?w3)[a := Encode ?b'],
                    trace := trace w @ [SendStats ch a (Encode ?b')]\<rparr>)"
    using assms(2,3) a
    by (simp add: flush_send_ok[OF assms(1)] send_stats_def after_encode_fields st
        after_encode_def emit_def)
      (simp add: after_flip_def after_stamp_def after_alloc_def)
  have fl: "flush w t_new now = flush_send ?w3"
    unfolding flush_def nb
    by (simp add: flush_alloc_ok[OF assms(1)] flush_stamp_ok[OF assms(1)] flush_flip_ok
        and_then_def)
  have c3: "?nb \<noteq> currentBucket (conc w)"
    using assms(1) by (auto simp: cur_ok_def)
  have c5: "openBucket (conc ?w1) = (openBucket (conc w))[nat (sint ?nb) := Some (length (heap w))]"
    by (simp add: after_alloc_def)
  have c6: "heap ?w1 = heap w @ [NewStatsBucket (eps (conc w)) t_new]"
    by (simp add: after_alloc_def)
  have c7: "currentBucket (conc ?w1) = currentBucket (conc w)"
    by (simp add: after_alloc_def)
  have c10: "?w2 = ?w1\<lparr>heap := (heap ?w1)[a := ?b']\<rparr>"
    using a by (simp add: after_stamp_def st)
  have c12: "?w3 = ?w2\<lparr>conc := (conc ?w2)\<lparr>currentBucket := ?nb\<rparr>\<rparr>"
    by (simp add: after_flip_def)
  have c13: "slot (openBucket (conc ?w3)) (int32_rem (currentBucket (conc ?w3) + 1) 2) = Some a"
    using sl cb3 by simp
  show ?thesis
    apply (rule exI[of _ a], rule exI[of _ ?nb], rule exI[of _ ?w1], rule exI[of _ ?w2],
        rule exI[of _ ?w3], rule exI[of _ ?b'])
    apply (intro conjI)
                  apply (rule a(1))
                 apply (rule nb[symmetric])
                apply (rule c3)
               apply (rule flush_alloc_ok[OF assms(1)])
              apply (rule c5)
             apply (rule c6)
            apply (rule c7)
           apply (rule refl)
          apply (rule flush_stamp_ok[OF assms(1)])
         apply (rule c10)
        apply (rule flush_flip_ok)
       apply (rule c12)
      apply (rule c13)
     apply (rule fl)
    apply (rule fs)
    done
qed


theorem flush_in_order_witness:
  "cur_ok demo \<and> outStats (conc demo) = Some (Chan 2) \<and> CloseStats (Chan 2) \<notin> set (trace demo)
   \<and> (\<exists>a w3. cur_addr demo = Some a \<and> flush demo 2 5 = flush_send w3
         \<and> slot (openBucket (conc w3)) (int32_rem (currentBucket (conc w3) + 1) 2) = Some a)"
proof -
  have h1: "cur_ok demo" by code_simp
  have h2: "outStats (conc demo) = Some (Chan 2)" by code_simp
  have h3: "CloseStats (Chan 2) \<notin> set (trace demo)" by code_simp
  from flush_in_order[OF h1 h2 h3, of 2 5] h1 h2 h3 show ?thesis by blast
qed

text \<open>
  The claim as stated, that the slot sent holds the bucket closed one rotation ago, fails:
  after a first flush the bucket at address 1 is the current one, still open; the second
  flush (clock value 5) sends that very bucket, with the Duration 5 - 2 that only the
  second flush can have set. The bucket closed by the first flush, at address 0, went
  out with the first flush.
\<close>

theorem emitted_bucket_closed_one_rotation_ago_counterexample:
  "returned (flush demo 2 2) \<noteq> None
   \<and> cur_addr (the (returned (flush demo 2 2))) = Some 1
   \<and> returned (flush (the (returned (flush demo 2 2))) 5 5) \<noteq> None
   \<and> stats_sent (trace (the (returned (flush (the (returned (flush demo 2 2))) 5 5)))) =
       [(0, \<lparr>sbStart = 0, sbDuration = 2, sbEps = 7, sbSpans = [], sbEncoded = True\<rparr>),
        (1, \<lparr>sbStart = 2, sbDuration = 3, sbEps = 7, sbSpans = [], sbEncoded = True\<rparr>)]"
  by code_simp

text \<open>
  C4. In every execution, a bucket that a step sends on the stats channel is sent by
  a tick; it was the current bucket before that tick; the value sent is the bucket as
  it stands in the heap at the send, with the Duration that this tick has set and
  encoded; at the send it is not the current bucket any more; and its address was never
  sent before, so the addresses sent are pairwise distinct.
\<close>

theorem sent_bucket_closed_not_current_once:
  assumes "run (boot bd e ex eg i os osp t0) evs = Inr w" "step w ev = Inr w'"
  shows "trace w' = trace w @ added w w'
    \<and> distinct (sent_addrs w')
    \<and> (\<forall>ch a b. SendStats ch a b \<in> set (added w w') \<longrightarrow>
          (\<exists>t_new now. ev = Tick t_new now
             \<and> cur_addr w = Some a
             \<and> a \<notin> set (sent_addrs w)
             \<and> sbStart b = sbStart (heap w ! a)
             \<and> sbDuration b = now - sbStart (heap w ! a)
             \<and> sbEncoded b
             \<and> heap w' ! a = b
             \<and> cur_addr w' \<noteq> Some a))"
proof -
  have i: "inv w" by (rule reach_inv[OF assms(1)])
  then have ok: "cur_ok w" by (simp add: inv_def)
  have d: "distinct (sent_addrs w')" using inv_step[OF i assms(2)] by (simp add: inv_def)
  show ?thesis
  proof (cases ev)
    case CloserBegins
    with assms(2) have "\<exists>tr. trace w' = trace w @ tr \<and> stats_sent tr = [] \<and> (\<forall>ch a b. SendStats ch a b \<notin> set tr)"
      by (auto simp: bucketCloser_enter_def closer_moves_def split: if_splits option.splits)
    with d show ?thesis by auto
  next
    case ExitSignal
    with assms(2) have "\<exists>tr. trace w' = trace w @ tr \<and> (\<forall>ch a b. SendStats ch a b \<notin> set tr)"
      by (auto simp: exit_char closer_moves_def split: if_splits option.splits)
    with d show ?thesis by auto
  next
    case (SpanArrives s)
    with assms(2) have "\<exists>tr. trace w' = trace w @ tr \<and> (\<forall>ch a b. SendStats ch a b \<notin> set tr)"
      by (auto simp: ingest_char[OF ok] ingestor_moves_def split: if_splits option.splits)
    with d show ?thesis by auto
  next
    case InboundClosed
    with assms(2) have "\<exists>tr. trace w' = trace w @ tr \<and> (\<forall>ch a b. SendStats ch a b \<notin> set tr)"
      by (auto split: if_splits)
    with d show ?thesis by auto
  next
    case (Tick t_new now)
    from ok obtain a where a: "cur_addr w = Some a" "a < length (heap w)" by (elim cur_okE)
    let ?l = "LogInfo ''Concentrator flushed a time bucket''"
    let ?w4 = "after_encode (emit w ?l) t_new now"
    let ?b = "Encode (stamped w now)"
    have ok0: "cur_ok (emit w ?l)" using ok by simp
    have hb: "heap ?w4 ! a = ?b"
      using heap_after_encode_old[OF ok0, of t_new now] a by simp
    have ca: "cur_addr ?w4 = Some (length (heap w))"
      using cur_addr_after_encode[OF ok0, of t_new now] by simp
    have ns: "a \<notin> set (sent_addrs w)" using i a by (auto simp: inv_def)
    have sb: "sbStart ?b = sbStart (heap w ! a)" "sbDuration ?b = now - sbStart (heap w ! a)"
        "sbEncoded ?b"
      using a by (simp_all add: Encode_def stamped_def Let_def)
    consider (idle) "w' = w"
      | (blocked) "w' = ?w4\<lparr>closer := Blocked\<rparr>"
      | (sent) ch where "w' = (emit ?w4 (SendStats ch a ?b))\<lparr>closer := Running\<rparr>"
      using assms(2) Tick a
      by (auto simp: tick_char[OF ok] closer_moves_def split: if_splits option.splits)
    then show ?thesis
    proof cases
      case idle
      with d show ?thesis by (simp add: added_def)
    next
      case blocked
      then have "trace w' = trace w @ [?l]" by (simp add: after_encode_fields)
      with d show ?thesis by auto
    next
      case sent
      then have tr: "trace w' = trace w @ [?l, SendStats ch a ?b]"
        by (simp add: after_encode_fields)
      have "heap w' ! a = ?b" "cur_addr w' \<noteq> Some a"
        using sent hb ca a by simp_all
      with d tr Tick a ns sb show ?thesis by auto
    qed
  qed
qed

theorem sent_bucket_closed_not_current_once_witness:
  "\<not> isl (run demo [CloserBegins, SpanArrives (Span 1), Tick 2 2])
   \<and> \<not> isl (step (projr (run demo [CloserBegins, SpanArrives (Span 1), Tick 2 2])) (Tick 4 5))
   \<and> distinct (sent_addrs
        (projr (step (projr (run demo [CloserBegins, SpanArrives (Span 1), Tick 2 2])) (Tick 4 5))))
   \<and> SendStats (Chan 2) 1
        \<lparr>sbStart = 2, sbDuration = 3, sbEps = 7, sbSpans = [], sbEncoded = True\<rparr>
       \<in> set (added (projr (run demo [CloserBegins, SpanArrives (Span 1), Tick 2 2]))
            (projr (step (projr (run demo [CloserBegins, SpanArrives (Span 1), Tick 2 2]))
               (Tick 4 5))))
   \<and> cur_addr (projr (step (projr (run demo [CloserBegins, SpanArrives (Span 1), Tick 2 2]))
        (Tick 4 5))) \<noteq> Some 1"
proof -
  let ?r = "run demo [CloserBegins, SpanArrives (Span 1), Tick 2 2]"
  let ?s = "step (projr ?r) (Tick 4 5)"
  let ?b = "\<lparr>sbStart = 2, sbDuration = 3, sbEps = 7, sbSpans = [], sbEncoded = True\<rparr>"
  have n1: "\<not> isl ?r" by code_simp
  then have e1: "?r = Inr (projr ?r)" by simp
  have n2: "\<not> isl ?s" by code_simp
  then have e2: "?s = Inr (projr ?s)" by simp
  have m: "SendStats (Chan 2) 1 ?b \<in> set (added (projr ?r) (projr ?s))" by code_simp
  from sent_bucket_closed_not_current_once[OF e1[unfolded demo_def] e2[unfolded demo_def]]
  have "distinct (sent_addrs (projr ?s))"
    and "\<forall>ch a b. SendStats ch a b \<in> set (added (projr ?r) (projr ?s)) \<longrightarrow>
           cur_addr (projr ?s) \<noteq> Some a"
    unfolding demo_def by blast+
  with n1 n2 m show ?thesis by blast
qed

text \<open>
  C5. In every execution (with \<open>outSpans\<close> a channel): when \<open>bucketCloser\<close> is in its
  loop and takes the exit signal, it logs, closes \<open>outSpans\<close>, calls \<open>Done\<close> on the wait
  group and returns; the struct and the heap are as before, so there is no rotation, and
  nothing is sent on the stats channel. The trace holds one close of a channel if the
  closer has returned and none otherwise, and a closer that has returned takes no
  further tick or signal. A tick adds no close and no call on the wait group to the
  trace and does not make the closer return.
\<close>

theorem exit_closes_spans_without_flush:
  assumes "run (boot bd e ex eg i os (Some co) t0) evs = Inr w"
  shows "(closer w = Running \<and> ex \<noteq> None \<longrightarrow>
           (\<exists>g. eg = Some g \<and> step w ExitSignal =
              Inr (w\<lparr>trace := trace w @
                     [LogInfo ''Concentrator exiting'', CloseSpans co, WgDone g],
                    closer := Returned\<rparr>)))
    \<and> length (filter is_close (trace w)) = (if closer w = Returned then 1 else 0)
    \<and> (closer w = Returned \<longrightarrow>
          step w ExitSignal = Inr w \<and> (\<forall>t_new now. step w (Tick t_new now) = Inr w))
    \<and> (\<forall>t_new now w'. step w (Tick t_new now) = Inr w' \<longrightarrow>
          trace w' = trace w @ added w w'
          \<and> (\<forall>x \<in> set (added w w'). \<not> is_close x \<and> \<not> is_waitgroup x)
          \<and> (closer w' = Returned \<longrightarrow> w' = w))"
proof -
  have i: "inv w" by (rule reach_inv[OF assms])
  then have ok: "cur_ok w" by (simp add: inv_def)
  note cfg = reach_config[OF assms]
  have A: "closer w = Running \<and> ex \<noteq> None \<longrightarrow>
           (\<exists>g. eg = Some g \<and> step w ExitSignal =
              Inr (w\<lparr>trace := trace w @
                     [LogInfo ''Concentrator exiting'', CloseSpans co, WgDone g],
                    closer := Returned\<rparr>))"
  proof
    assume a: "closer w = Running \<and> ex \<noteq> None"
    with i obtain g where g: "exitGroup (conc w) = Some g" by (auto simp: inv_def)
    have nc: "CloseSpans co \<notin> set (trace w)" using i a by (auto simp: inv_def)
    show "\<exists>g. eg = Some g \<and> step w ExitSignal =
              Inr (w\<lparr>trace := trace w @
                     [LogInfo ''Concentrator exiting'', CloseSpans co, WgDone g],
                    closer := Returned\<rparr>)"
      using a g nc cfg by (auto simp: exit_char closer_moves_def)
  qed
  have B: "length (filter is_close (trace w)) = (if closer w = Returned then 1 else 0)"
    using closed_once_run[OF inv_boot closed_once_boot assms]
    by (simp add: closed_once_def closes_def)
  have C: "closer w = Returned \<longrightarrow>
          step w ExitSignal = Inr w \<and> (\<forall>t_new now. step w (Tick t_new now) = Inr w)"
    by simp
  have D: "\<forall>t_new now w'. step w (Tick t_new now) = Inr w' \<longrightarrow>
          trace w' = trace w @ added w w'
          \<and> (\<forall>x \<in> set (added w w'). \<not> is_close x \<and> \<not> is_waitgroup x)
          \<and> (closer w' = Returned \<longrightarrow> w' = w)"
  proof (intro allI impI)
    fix t_new now w'
    assume s: "step w (Tick t_new now) = Inr w'"
    let ?l = "LogInfo ''Concentrator flushed a time bucket''"
    let ?w4 = "after_encode (emit w ?l) t_new now"
    consider (idle) "w' = w"
      | (blocked) "w' = ?w4\<lparr>closer := Blocked\<rparr>"
      | (sent) ch a b where "w' = (emit ?w4 (SendStats ch a b))\<lparr>closer := Running\<rparr>"
      using s
      by (auto simp: tick_char[OF ok] closer_moves_def split: if_splits option.splits)
    then show "trace w' = trace w @ added w w'
          \<and> (\<forall>x \<in> set (added w w'). \<not> is_close x \<and> \<not> is_waitgroup x)
          \<and> (closer w' = Returned \<longrightarrow> w' = w)"
    proof cases
      case idle
      then show ?thesis by (simp add: added_def)
    next
      case blocked
      then have "trace w' = trace w @ [?l]" "closer w' = Blocked"
        by (simp_all add: after_encode_fields)
      then show ?thesis by auto
    next
      case sent
      then have "trace w' = trace w @ [?l, SendStats ch a b]" "closer w' = Running"
        by (simp_all add: after_encode_fields)
      then show ?thesis by auto
    qed
  qed
  show ?thesis
    apply (intro conjI)
       apply (rule A)
      apply (rule B)
     apply (rule C)
    apply (rule D)
    done
qed

theorem exit_closes_spans_without_flush_witness:
  "\<not> isl (run demo [CloserBegins, SpanArrives (Span 1), Tick 2 2])
   \<and> closer (projr (run demo [CloserBegins, SpanArrives (Span 1), Tick 2 2])) = Running
   \<and> step (projr (run demo [CloserBegins, SpanArrives (Span 1), Tick 2 2])) ExitSignal =
       Inr ((projr (run demo [CloserBegins, SpanArrives (Span 1), Tick 2 2]))
         \<lparr>trace := trace (projr (run demo [CloserBegins, SpanArrives (Span 1), Tick 2 2])) @
             [LogInfo ''Concentrator exiting'', CloseSpans (Chan 3), WgDone (WaitGroup 0)],
          closer := Returned\<rparr>)
   \<and> length (filter is_close
        (trace (projr (run demo [CloserBegins, SpanArrives (Span 1), Tick 2 2])))) = 0"
proof -
  let ?r = "run demo [CloserBegins, SpanArrives (Span 1), Tick 2 2]"
  have n1: "\<not> isl ?r" by code_simp
  then have e1: "?r = Inr (projr ?r)" by simp
  have c: "closer (projr ?r) = Running" by code_simp
  from exit_closes_spans_without_flush[of 10 7 "Some (Chan 0)" "Some (WaitGroup 0)"
      "Some (Chan 1)" "Some (Chan 2)" "Chan 3" 0
      "[CloserBegins, SpanArrives (Span 1), Tick 2 2]" "projr ?r"]
    e1 c n1
  show ?thesis unfolding demo_def by auto
qed

text \<open>
  C6 on the code. The ingestor leaves its loop only when \<open>inSpans\<close> is closed, and
  \<open>bucketCloser\<close> closes \<open>outSpans\<close> on the exit signal without waiting for it. In
  the example program, after the closer has entered and taken the exit signal, the
  ingestor is still at the head of its loop and \<open>outSpans\<close> is closed. For the next
  span \<open>HandleNewSpan\<close> returns, and the send on the closed channel panics: the span
  is not forwarded, and the ingestor does not return when the inbound channel is closed
  afterwards.
\<close>

theorem span_after_exit_panics:
  "\<not> isl (run demo [CloserBegins, ExitSignal])
   \<and> ingestor (projr (run demo [CloserBegins, ExitSignal])) = Running
   \<and> returned (HandleNewSpan (projr (run demo [CloserBegins, ExitSignal])) (Span 1)) \<noteq> None
   \<and> CloseSpans (Chan 3) \<in> set (trace (projr (run demo [CloserBegins, ExitSignal])))
   \<and> step (projr (run demo [CloserBegins, ExitSignal])) (SpanArrives (Span 1)) =
       Inl SendOnClosedChannel
   \<and> run demo [CloserBegins, ExitSignal, SpanArrives (Span 1), InboundClosed] =
       Inl SendOnClosedChannel"
  by code_simp

text \<open>
  C7 on the code. \<open>exitGroup.Add(1)\<close> is the first statement of the goroutine
  \<open>bucketCloser\<close>, not of \<open>Start\<close>. In the example program right after \<open>Start\<close>
  the goroutine is launched and has not run yet. An exit signal offered now is not taken
  (the world is unchanged), the counter of the wait group is 0, so a \<open>Wait\<close> returns
  at once, and \<open>outSpans\<close> is not closed. The close comes later, after the goroutine
  has entered (\<open>Add\<close>) and taken the signal.
\<close>

theorem wait_returns_with_spans_open:
  "run demo [ExitSignal] = Inr demo
   \<and> exitGroup (conc demo) = Some (WaitGroup 0)
   \<and> wg_counter (WaitGroup 0) (trace demo) = 0
   \<and> outSpans (conc demo) = Some (Chan 3)
   \<and> CloseSpans (Chan 3) \<notin> set (trace demo)
   \<and> closer demo = Spawned
   \<and> trace (projr (run demo [ExitSignal, CloserBegins, ExitSignal])) =
       trace demo @ [WgAdd (WaitGroup 0) 1, NewTicker 10, LogInfo ''Concentrator exiting'',
                     CloseSpans (Chan 3), WgDone (WaitGroup 0)]"
proof -
  have c: "closer demo = Spawned" by code_simp
  then have r: "run demo [ExitSignal] = Inr demo" by simp
  have rest: "exitGroup (conc demo) = Some (WaitGroup 0)"
    "wg_counter (WaitGroup 0) (trace demo) = 0"
    "outSpans (conc demo) = Some (Chan 3)"
    "CloseSpans (Chan 3) \<notin> set (trace demo)"
    "trace (projr (run demo [ExitSignal, CloserBegins, ExitSignal])) =
       trace demo @ [WgAdd (WaitGroup 0) 1, NewTicker 10, LogInfo ''Concentrator exiting'',
                     CloseSpans (Chan 3), WgDone (WaitGroup 0)]"
    by code_simp+
  from r c rest show ?thesis by simp
qed

text \<open>
  C8. In every execution from \<open>Start\<close> on, through any ticks, spans and the exit
  signal, the trace holds no close of a stats channel; the only channel ever closed is
  the outbound span channel \<open>outSpans\<close>.
\<close>

theorem stats_channel_never_closed:
  assumes "run (boot bd e ex eg i os osp t0) evs = Inr w"
  shows "(\<forall>ch. CloseStats ch \<notin> set (trace w))
       \<and> (\<forall>ch. CloseSpans ch \<in> set (trace w) \<longrightarrow> osp = Some ch)"
  using reach_inv[OF assms] reach_config(3)[OF assms]
  by (auto simp: inv_def)

theorem stats_channel_never_closed_witness:
  "\<not> isl (run demo [CloserBegins, SpanArrives (Span 1), Tick 2 2, Tick 5 5, ExitSignal])
   \<and> (\<forall>ch. CloseStats ch \<notin> set (trace (projr
         (run demo [CloserBegins, SpanArrives (Span 1), Tick 2 2, Tick 5 5, ExitSignal]))))
   \<and> CloseSpans (Chan 3) \<in> set (trace (projr
         (run demo [CloserBegins, SpanArrives (Span 1), Tick 2 2, Tick 5 5, ExitSignal])))"
proof -
  let ?r = "run demo [CloserBegins, SpanArrives (Span 1), Tick 2 2, Tick 5 5, ExitSignal]"
  have ni: "\<not> isl ?r" by code_simp
  then have eq: "?r = Inr (projr ?r)" by simp
  have cl: "CloseSpans (Chan 3) \<in> set (trace (projr ?r))" by code_simp
  from stats_channel_never_closed[OF eq[unfolded demo_def]] ni cl
  show ?thesis by (simp add: demo_def)
qed

text \<open>
  C9. After \<open>Start\<close>, whatever spans, ticks and signals follow, \<open>currentBucket\<close> is 0
  or 1 and the slot it selects is not nil, so \<open>HandleNewSpan\<close> returns; no execution
  panics on a nil bucket pointer or on an index out of range. The same holds at the
  points inside a flush: after the allocation into the other slot, after the Duration
  is set and after the index is flipped (the flush of a tick runs in the world
  \<open>emit w l\<close>, \<open>l\<close> being the line it logs first).
\<close>

theorem current_bucket_never_nil:
  "run (boot bd e ex eg i os osp t0) evs \<noteq> Inl NilBucketPointer
   \<and> run (boot bd e ex eg i os osp t0) evs \<noteq> Inl IndexOutOfRange
   \<and> (\<forall>w. run (boot bd e ex eg i os osp t0) evs = Inr w \<longrightarrow>
        (currentBucket (conc w) = 0 \<or> currentBucket (conc w) = 1)
        \<and> cur_addr w \<noteq> None
        \<and> (\<forall>s. returned (HandleNewSpan w s) \<noteq> None)
        \<and> (\<forall>l t_new now s.
             flush_alloc (emit w l) (int32_rem (currentBucket (conc w) + 1) 2) t_new
               = Returns (after_alloc (emit w l) t_new)
             \<and> cur_ok (after_alloc (emit w l) t_new)
             \<and> returned (HandleNewSpan (after_alloc (emit w l) t_new) s) \<noteq> None
             \<and> flush_stamp (after_alloc (emit w l) t_new) now
               = Returns (after_stamp (emit w l) t_new now)
             \<and> cur_ok (after_stamp (emit w l) t_new now)
             \<and> returned (HandleNewSpan (after_stamp (emit w l) t_new now) s) \<noteq> None
             \<and> flush_flip (after_stamp (emit w l) t_new now)
                  (int32_rem (currentBucket (conc w) + 1) 2)
               = after_flip (emit w l) t_new now
             \<and> cur_ok (after_flip (emit w l) t_new now)
             \<and> returned (HandleNewSpan (after_flip (emit w l) t_new now) s) \<noteq> None))"
proof (intro conjI allI impI)
  show "run (boot bd e ex eg i os osp t0) evs \<noteq> Inl NilBucketPointer"
    using no_bucket_panic_run[OF inv_boot] by blast
  show "run (boot bd e ex eg i os osp t0) evs \<noteq> Inl IndexOutOfRange"
    using no_bucket_panic_run[OF inv_boot] by blast
next
  fix w assume r: "run (boot bd e ex eg i os osp t0) evs = Inr w"
  then have ok: "cur_ok w" using reach_inv by (simp add: inv_def)
  show "currentBucket (conc w) = 0 \<or> currentBucket (conc w) = 1"
    using ok by (simp add: cur_ok_def)
  show "cur_addr w \<noteq> None" using ok by (simp add: cur_ok_def)
  fix s
  show "returned (HandleNewSpan w s) \<noteq> None" by (simp add: handle_ok[OF ok])
  fix l t_new now
  have ok0: "cur_ok (emit w l)" using ok by simp
  have nb: "int32_rem (currentBucket (conc w) + 1) 2 = 1 - currentBucket (conc (emit w l))"
    using ok by (elim cur_okE) simp
  show "flush_alloc (emit w l) (int32_rem (currentBucket (conc w) + 1) 2) t_new
               = Returns (after_alloc (emit w l) t_new)"
    unfolding nb by (rule flush_alloc_ok[OF ok0])
  show "cur_ok (after_alloc (emit w l) t_new)" by (rule cur_ok_after_alloc[OF ok0])
  then show "returned (HandleNewSpan (after_alloc (emit w l) t_new) s) \<noteq> None"
    by (simp add: handle_ok)
  show "flush_stamp (after_alloc (emit w l) t_new) now
               = Returns (after_stamp (emit w l) t_new now)"
    by (rule flush_stamp_ok[OF ok0])
  show "cur_ok (after_stamp (emit w l) t_new now)" by (rule cur_ok_after_stamp[OF ok0])
  then show "returned (HandleNewSpan (after_stamp (emit w l) t_new now) s) \<noteq> None"
    by (simp add: handle_ok)
  show "flush_flip (after_stamp (emit w l) t_new now)
                  (int32_rem (currentBucket (conc w) + 1) 2)
               = after_flip (emit w l) t_new now"
    unfolding nb using flush_flip_ok[of "emit w l"] by simp
  show "cur_ok (after_flip (emit w l) t_new now)" by (rule cur_ok_after_flip[OF ok0])
  then show "returned (HandleNewSpan (after_flip (emit w l) t_new now) s) \<noteq> None"
    by (simp add: handle_ok)
qed

theorem current_bucket_never_nil_witness:
  "\<not> isl (run demo [SpanArrives (Span 1), CloserBegins, Tick 2 2, SpanArrives (Span 2)])
   \<and> currentBucket (conc (projr
        (run demo [SpanArrives (Span 1), CloserBegins, Tick 2 2, SpanArrives (Span 2)]))) = 1
   \<and> cur_addr (projr
        (run demo [SpanArrives (Span 1), CloserBegins, Tick 2 2, SpanArrives (Span 2)])) \<noteq> None
   \<and> returned (HandleNewSpan (projr
        (run demo [SpanArrives (Span 1), CloserBegins, Tick 2 2, SpanArrives (Span 2)]))
          (Span 3)) \<noteq> None"
proof -
  let ?r = "run demo [SpanArrives (Span 1), CloserBegins, Tick 2 2, SpanArrives (Span 2)]"
  have ni: "\<not> isl ?r" by code_simp
  then have eq: "?r = Inr (projr ?r)" by simp
  have cb: "currentBucket (conc (projr ?r)) = 1" by code_simp
  from current_bucket_never_nil[of 10 7 "Some (Chan 0)" "Some (WaitGroup 0)" "Some (Chan 1)"
      "Some (Chan 2)" "Some (Chan 3)" 0
      "[SpanArrives (Span 1), CloserBegins, Tick 2 2, SpanArrives (Span 2)]"]
    eq[unfolded demo_def]
  have "cur_addr (projr ?r) \<noteq> None \<and> returned (HandleNewSpan (projr ?r) (Span 3)) \<noteq> None"
    unfolding demo_def by blast
  with ni cb show ?thesis by simp
qed

text \<open>
  C10. \<open>Init\<close> assigns the three channel fields \<open>inSpans\<close>, \<open>outStats\<close> and
  \<open>outSpans\<close> and nothing else: the other six fields of the struct keep their values,
  no bucket is allocated (the heap is the same), no effect is performed (the trace is
  the same, so no goroutine is launched) and the control state of both goroutines is
  the same.
\<close>

theorem Init_frame:
  "inSpans (conc (Init w i os osp)) = i
   \<and> outStats (conc (Init w i os osp)) = os
   \<and> outSpans (conc (Init w i os osp)) = osp
   \<and> exit (conc (Init w i os osp)) = exit (conc w)
   \<and> exitGroup (conc (Init w i os osp)) = exitGroup (conc w)
   \<and> bucketDuration (conc (Init w i os osp)) = bucketDuration (conc w)
   \<and> eps (conc (Init w i os osp)) = eps (conc w)
   \<and> openBucket (conc (Init w i os osp)) = openBucket (conc w)
   \<and> currentBucket (conc (Init w i os osp)) = currentBucket (conc w)
   \<and> heap (Init w i os osp) = heap w
   \<and> trace (Init w i os osp) = trace w
   \<and> ingestor (Init w i os osp) = ingestor w
   \<and> closer (Init w i os osp) = closer w"
  by (simp add: Init_def)

end
